theory Spec2Isabelle
  imports Main "HOL-Library.Sublist" "HOL-Library.List_Lexorder" "HOL-Library.Product_Lexorder"
begin

section \<open>Strings\<close>

text \<open>
  A Python \<^verbatim>\<open>str\<close> is a sequence of Unicode code points, so it is modelled as a list
  of naturals. Comparison of two such lists (HOL-Library.List_Lexorder) is the
  lexicographic order on code points, which is how Python compares strings.
  \<open>ascii\<close> turns a literal of the theory into such a string.
\<close>

type_synonym str = "nat list"

definition ascii :: "string \<Rightarrow> str" where
  "ascii s = map of_char s"

definition newline :: nat where
  "newline = 10"

definition backslash :: nat where
  "backslash = 92"

definition slash :: nat where
  "slash = 47"

text \<open>
  The two headings of \<^verbatim>\<open>replace_section\<close>. The pictographs are U+1F4D1 and U+1F6E0.
\<close>

definition start_heading :: str where
  "start_heading = ascii ''## '' @ [0x1F4D1] @ ascii '' Topics & Examples''"

definition end_heading :: str where
  "end_heading = ascii ''## '' @ [0x1F6E0] @ ascii '' Requirements''"

section \<open>Errors\<close>

text \<open>
  \<open>TemplateError\<close> stands for the exception that \<^verbatim>\<open>re.sub\<close> raises while it compiles
  the replacement string (\<^verbatim>\<open>re.error\<close>, or \<^verbatim>\<open>IndexError\<close> for an unknown group name);
  \<open>FileNotFoundError\<close> for the one \<^verbatim>\<open>open(README)\<close> raises.
\<close>

datatype error = TemplateError | FileNotFoundError

section \<open>Tables of the interpreter\<close>

text \<open>
  Three operations of the Python runtime depend on the Unicode character database, which
  is not part of the program. They are parameters of the model:
  \<^item> \<open>title_full c\<close>: the full title-case mapping of a code point above 127;
  \<^item> \<open>lower_full s i\<close>: the full lower-case mapping of the code point above 127 at index
    \<open>i\<close> of \<open>s\<close> (it sees the whole string because of the final-sigma rule);
  \<^item> \<open>group_name n\<close>: the group index that the name \<open>n\<close> of a reference
    \<^verbatim>\<open>\g<n>\<close> denotes, \<open>None\<close> when the name is rejected (this goes through
    \<^verbatim>\<open>str.isidentifier\<close> and \<^verbatim>\<open>int\<close>).
  Code points up to 127 are handled by the model itself.
\<close>

record unicode_db =
  title_full :: "nat \<Rightarrow> str"
  lower_full :: "str \<Rightarrow> nat \<Rightarrow> str"
  group_name :: "str \<Rightarrow> nat option"

text \<open>
  A database that knows no cased character above 127 and reads a group name made of the
  digits \<^verbatim>\<open>0\<close> to \<^verbatim>\<open>9\<close> as the number it denotes, as the interpreter does; it rejects
  every other name. It serves to evaluate the program on concrete inputs.
\<close>

definition decimal :: "str \<Rightarrow> nat option" where
  "decimal n =
     (if n \<noteq> [] \<and> list_all (\<lambda>c. 48 \<le> c \<and> c \<le> 57) n
      then Some (foldl (\<lambda>v c. 10 * v + (c - 48)) 0 n) else None)"

definition plain_db :: unicode_db where
  "plain_db = \<lparr>title_full = (\<lambda>c. [c]), lower_full = (\<lambda>s i. [s ! i]), group_name = decimal\<rparr>"

section \<open>The substitution of \<^verbatim>\<open>re.sub\<close>\<close>

subsection \<open>Searching\<close>

text \<open>
  \<open>find_first pat s\<close> is the leftmost occurrence of \<open>pat\<close> in \<open>s\<close>: the text before it
  and the text after it.
\<close>

fun find_first :: "'a list \<Rightarrow> 'a list \<Rightarrow> ('a list \<times> 'a list) option" where
  "find_first pat [] = (if pat = [] then Some ([], []) else None)"
| "find_first pat (x # xs) =
     (if prefix pat (x # xs) then Some ([], drop (length pat) (x # xs))
      else map_option (\<lambda>(pre, post). (x # pre, post)) (find_first pat xs))"

text \<open>
  The pattern is the start heading, a lazy \<^verbatim>\<open>.*?\<close> that matches any character
  (flag \<^verbatim>\<open>re.S\<close>), and the end heading; no other character of it is special. An attempt
  at the beginning of \<open>s\<close> reads the start heading and then tries the end heading at each
  later offset in turn: it succeeds with the first end heading that follows.
  \<open>match_here\<close> returns the matched text and the text after it.
\<close>

definition match_here :: "str \<Rightarrow> (str \<times> str) option" where
  "match_here s =
     (if prefix start_heading s then
        (case find_first end_heading (drop (length start_heading) s) of
           None \<Rightarrow> None
         | Some (mid, rest) \<Rightarrow> Some (start_heading @ mid @ end_heading, rest))
      else None)"

text \<open>
  The search tries every position from left to right: the text skipped, the match, and
  the text after the match.
\<close>

fun re_search :: "str \<Rightarrow> (str \<times> str \<times> str) option" where
  "re_search [] = None"
| "re_search (c # cs) =
     (case match_here (c # cs) of
        Some (m, rest) \<Rightarrow> Some ([], m, rest)
      | None \<Rightarrow> map_option (\<lambda>(pre, m, rest). (c # pre, m, rest)) (re_search cs))"

subsection \<open>The replacement template\<close>

text \<open>
  The tokenizer of the template reads a backslash together with the character after it;
  a backslash at the end of the template is an error.
\<close>

datatype token = Chr nat | Esc nat

fun tokenize :: "str \<Rightarrow> error + token list" where
  "tokenize [] = Inr []"
| "tokenize [c] = (if c = backslash then Inl TemplateError else Inr [Chr c])"
| "tokenize (c # d # ds) =
     (if c = backslash then map_sum id (Cons (Esc d)) (tokenize ds)
      else map_sum id (Cons (Chr c)) (tokenize (d # ds)))"

text \<open>
  A compiled template is a sequence of literal characters and references to group 0
  (the whole match): the pattern has no group of its own, and \<^verbatim>\<open>addgroup\<close> rejects every
  larger index.
\<close>

datatype item = Lit nat | Group0

definition addgroup :: "nat \<Rightarrow> error + item" where
  "addgroup index = (if index > 0 then Inl TemplateError else Inr Group0)"

definition is_digit :: "nat \<Rightarrow> bool" where
  "is_digit c \<longleftrightarrow> 48 \<le> c \<and> c \<le> 57"

definition is_octdigit :: "nat \<Rightarrow> bool" where
  "is_octdigit c \<longleftrightarrow> 48 \<le> c \<and> c \<le> 55"

definition is_ascii_letter :: "nat \<Rightarrow> bool" where
  "is_ascii_letter c \<longleftrightarrow> (65 \<le> c \<and> c \<le> 90) \<or> (97 \<le> c \<and> c \<le> 122)"

text \<open>The table \<^verbatim>\<open>ESCAPES\<close>: a, b, f, n, r, t, v and the backslash.\<close>

definition escapes :: "nat \<Rightarrow> nat option" where
  "escapes c =
     (if c = 97 then Some 7 else if c = 98 then Some 8 else if c = 102 then Some 12
      else if c = 110 then Some 10 else if c = 114 then Some 13 else if c = 116 then Some 9
      else if c = 118 then Some 11 else if c = 92 then Some 92 else None)"

text \<open>
  \<^verbatim>\<open>getuntil(">")\<close>: the text of the tokens up to the first token \<^verbatim>\<open>>\<close>, and the tokens
  after it; \<open>None\<close> when the terminator is missing.
\<close>

fun token_text :: "token \<Rightarrow> str" where
  "token_text (Chr c) = [c]"
| "token_text (Esc c) = [backslash, c]"

fun getuntil :: "token list \<Rightarrow> (str \<times> token list) option" where
  "getuntil [] = None"
| "getuntil (t # ts) =
     (if t = Chr 62 then Some ([], ts)
      else map_option (\<lambda>(name, rest). (token_text t @ name, rest)) (getuntil ts))"

text \<open>Up to \<open>n\<close> leading octal digits, as the value read so far, and the tokens left.\<close>

fun take_oct :: "nat \<Rightarrow> nat \<Rightarrow> token list \<Rightarrow> nat \<times> token list" where
  "take_oct 0 v ts = (v, ts)"
| "take_oct (Suc n) v [] = (v, [])"
| "take_oct (Suc n) v (Esc c # ts) = (v, Esc c # ts)"
| "take_oct (Suc n) v (Chr c # ts) =
     (if is_octdigit c then take_oct n (8 * v + (c - 48)) ts else (v, Chr c # ts))"

text \<open>
  One step of the loop of \<^verbatim>\<open>parse_template\<close>: the items that the token \<open>t\<close> contributes
  (with the tokens it reads after itself), and the tokens left.
\<close>

definition parse_escape :: "unicode_db \<Rightarrow> nat \<Rightarrow> token list \<Rightarrow> error + (item list \<times> token list)" where
  "parse_escape U c ts =
     (if c = 103 then
        (case ts of
           Chr d # ts' \<Rightarrow>
             if d = 60 then
               (case getuntil ts' of
                  None \<Rightarrow> Inl TemplateError
                | Some (name, rest) \<Rightarrow>
                    if name = [] then Inl TemplateError
                    else (case group_name U name of
                            None \<Rightarrow> Inl TemplateError
                          | Some index \<Rightarrow> map_sum id (\<lambda>g. ([g], rest)) (addgroup index)))
             else Inl TemplateError
         | _ \<Rightarrow> Inl TemplateError)
      else if c = 48 then
        (case take_oct 2 0 ts of (v, rest) \<Rightarrow> Inr ([Lit (v mod 256)], rest))
      else if is_digit c then
        (case ts of
           Chr d # ts' \<Rightarrow>
             if is_digit d then
               (case ts' of
                  Chr e # ts'' \<Rightarrow>
                    if is_octdigit c \<and> is_octdigit d \<and> is_octdigit e then
                      (let v = 64 * (c - 48) + 8 * (d - 48) + (e - 48)
                       in if v > 255 then Inl TemplateError else Inr ([Lit v], ts''))
                    else map_sum id (\<lambda>g. ([g], ts')) (addgroup (10 * (c - 48) + (d - 48)))
                | _ \<Rightarrow> map_sum id (\<lambda>g. ([g], ts')) (addgroup (10 * (c - 48) + (d - 48))))
             else map_sum id (\<lambda>g. ([g], ts)) (addgroup (c - 48))
         | _ \<Rightarrow> map_sum id (\<lambda>g. ([g], ts)) (addgroup (c - 48)))
      else
        (case escapes c of
           Some v \<Rightarrow> Inr ([Lit v], ts)
         | None \<Rightarrow>
             if is_ascii_letter c then Inl TemplateError
             else Inr ([Lit backslash, Lit c], ts)))"

lemma getuntil_length: "getuntil ts = Some (name, rest) \<Longrightarrow> length rest < length ts"
  by (induction ts arbitrary: name) (auto split: if_splits)

lemma take_oct_length: "take_oct n v ts = (w, rest) \<Longrightarrow> length rest \<le> length ts"
proof (induction n v ts arbitrary: w rest rule: take_oct.induct)
  case (4 n v c ts)
  then show ?case by (cases "is_octdigit c") (auto intro: le_SucI)
qed auto

lemma parse_escape_length:
  assumes "parse_escape U c ts = Inr (items, rest)"
  shows "length rest \<le> length ts"
proof -
  have g: "\<And>name r ts'. getuntil ts' = Some (name, r) \<Longrightarrow> length r \<le> Suc (length ts')"
    using getuntil_length by fastforce
  have t: "\<And>w r. take_oct 2 0 ts = (w, r) \<Longrightarrow> length r \<le> length ts"
    using take_oct_length by blast
  from assms show ?thesis
    unfolding parse_escape_def addgroup_def
    by (auto split: if_splits list.splits token.splits option.splits prod.splits
        simp: Let_def dest: g t)
qed

function parse_template :: "unicode_db \<Rightarrow> token list \<Rightarrow> error + item list" where
  "parse_template U [] = Inr []"
| "parse_template U (Chr c # ts) = map_sum id (Cons (Lit c)) (parse_template U ts)"
| "parse_template U (Esc c # ts) =
     (case parse_escape U c ts of
        Inl e \<Rightarrow> Inl e
      | Inr (items, rest) \<Rightarrow> map_sum id (append items) (parse_template U rest))"
  by pat_completeness auto
termination
  by (relation "measure (\<lambda>(U, ts). length ts)") (auto dest: parse_escape_length)

definition compile_template :: "unicode_db \<Rightarrow> str \<Rightarrow> error + item list" where
  "compile_template U repl =
     (case tokenize repl of Inl e \<Rightarrow> Inl e | Inr ts \<Rightarrow> parse_template U ts)"

text \<open>Expanding a compiled template for a match \<open>m\<close>.\<close>

fun expand_item :: "str \<Rightarrow> item \<Rightarrow> str" where
  "expand_item m (Lit c) = [c]"
| "expand_item m Group0 = m"

definition expand_template :: "item list \<Rightarrow> str \<Rightarrow> str" where
  "expand_template tmpl m = concat (map (expand_item m) tmpl)"

subsection \<open>The loop of the substitution\<close>

lemma find_first_length:
  "find_first pat s = Some (pre, post) \<Longrightarrow> length pre + length pat + length post = length s"
proof (induction s arbitrary: pre)
  case Nil
  then show ?case by (auto split: if_splits)
next
  case (Cons x xs)
  show ?case
  proof (cases "prefix pat (x # xs)")
    case True
    then have "length pat \<le> length (x # xs)" by (rule prefix_length_le)
    with True Cons.prems show ?thesis by auto
  next
    case False
    with Cons.prems obtain p where "find_first pat xs = Some (p, post)" "pre = x # p"
      by auto
    with Cons.IH show ?thesis by fastforce
  qed
qed

lemma match_here_length:
  assumes "match_here s = Some (m, rest)"
  shows "length rest < length s"
proof -
  from assms obtain mid where p: "prefix start_heading s"
    and f: "find_first end_heading (drop (length start_heading) s) = Some (mid, rest)"
    by (auto simp: match_here_def split: if_splits option.splits)
  have "0 < length start_heading" by (simp add: start_heading_def)
  moreover from p have "length start_heading \<le> length s" by (rule prefix_length_le)
  moreover have "length rest \<le> length s - length start_heading"
    using find_first_length [OF f] by simp
  ultimately show ?thesis by linarith
qed

lemma re_search_length: "re_search s = Some (pre, m, rest) \<Longrightarrow> length rest < length s"
proof (induction s arbitrary: pre)
  case Nil
  then show ?case by simp
next
  case (Cons c cs)
  show ?case
  proof (cases "match_here (c # cs)")
    case None
    with Cons.prems obtain p where "re_search cs = Some (p, m, rest)" by auto
    with Cons.IH have "length rest < length cs" by blast
    then show ?thesis by simp
  next
    case (Some a)
    with Cons.prems have "match_here (c # cs) = Some (m, rest)" by (cases a) auto
    then show ?thesis by (rule match_here_length)
  qed
qed

text \<open>
  \<^verbatim>\<open>re.sub\<close> with no count replaces every match: after a match it goes on searching in
  the text that follows it. The text before a match and the text after the last match are
  copied.
\<close>

function re_sub_loop :: "item list \<Rightarrow> str \<Rightarrow> str" where
  "re_sub_loop tmpl s =
     (case re_search s of
        None \<Rightarrow> s
      | Some (pre, m, rest) \<Rightarrow> pre @ expand_template tmpl m @ re_sub_loop tmpl rest)"
  by pat_completeness auto
termination
  by (relation "measure (\<lambda>(tmpl, s). length s)") (auto dest: re_search_length)

declare re_sub_loop.simps [simp del]

text \<open>The template is compiled before the search starts, whether or not there is a match.\<close>

definition re_sub :: "unicode_db \<Rightarrow> str \<Rightarrow> str \<Rightarrow> error + str" where
  "re_sub U repl s =
     (case compile_template U repl of
        Inl e \<Rightarrow> Inl e
      | Inr tmpl \<Rightarrow> Inr (re_sub_loop tmpl s))"

text \<open>
  The text that \<^verbatim>\<open>re.sub\<close> copies after its last match: what is left of the document
  when the search finds nothing more.
\<close>

function after_last_match :: "str \<Rightarrow> str" where
  "after_last_match s =
     (case re_search s of
        None \<Rightarrow> s
      | Some (pre, m, rest) \<Rightarrow> after_last_match rest)"
  by pat_completeness auto
termination
  by (relation "measure length") (auto dest: re_search_length)

declare after_last_match.simps [simp del]


section \<open>The splicer\<close>

definition replace_section :: "unicode_db \<Rightarrow> str \<Rightarrow> str \<Rightarrow> error + str" where
  "replace_section U content new_section =
     re_sub U (new_section @ [newline] @ end_heading) content"

section \<open>The renderer\<close>

definition base_dir :: str where
  "base_dir = ascii ''src/main/java''"

definition java_suffix :: str where
  "java_suffix = ascii ''.java''"

text \<open>\<^verbatim>\<open>os.path.join\<close> of a POSIX host: one step, and the join of a path with more parts.\<close>

definition join2 :: "str \<Rightarrow> str \<Rightarrow> str" where
  "join2 path b =
     (if prefix [slash] b then b
      else if path = [] \<or> suffix [slash] path then path @ b
      else path @ [slash] @ b)"

definition os_path_join :: "str \<Rightarrow> str list \<Rightarrow> str" where
  "os_path_join a p = foldl join2 a p"

text \<open>\<^verbatim>\<open>.replace("\\", "/")\<close>\<close>

definition replace_backslash :: "str \<Rightarrow> str" where
  "replace_backslash s = map (\<lambda>c. if c = backslash then slash else c) s"

text \<open>
  \<^verbatim>\<open>str.capitalize\<close>: the first character in title case, every other character in lower
  case.
\<close>

definition ascii_upper :: "nat \<Rightarrow> nat" where
  "ascii_upper c = (if 97 \<le> c \<and> c \<le> 122 then c - 32 else c)"

definition ascii_lower :: "nat \<Rightarrow> nat" where
  "ascii_lower c = (if 65 \<le> c \<and> c \<le> 90 then c + 32 else c)"

definition to_title :: "unicode_db \<Rightarrow> nat \<Rightarrow> str" where
  "to_title U c = (if c < 128 then [ascii_upper c] else title_full U c)"

definition to_lower :: "unicode_db \<Rightarrow> str \<Rightarrow> nat \<Rightarrow> str" where
  "to_lower U s i = (if s ! i < 128 then [ascii_lower (s ! i)] else lower_full U s i)"

definition capitalize :: "unicode_db \<Rightarrow> str \<Rightarrow> str" where
  "capitalize U s =
     (if s = [] then []
      else to_title U (hd s) @ concat (map (to_lower U s) [1..<length s]))"

text \<open>\<^verbatim>\<open>"\n".join(lines)\<close>\<close>

fun join_lines :: "str list \<Rightarrow> str" where
  "join_lines [] = []"
| "join_lines [l] = l"
| "join_lines (l # m # ls) = l @ [newline] @ join_lines (m # ls)"

text \<open>
  The lines of \<^verbatim>\<open>generate_section\<close>. A dictionary is the list of its items, in the
  order of insertion; \<^verbatim>\<open>sorted\<close> is \<open>sort\<close>, on strings and on pairs of a string and a
  list of strings in the lexicographic order of Python. The slice \<^verbatim>\<open>f[:-5]\<close> drops the
  last five characters, and all of them when there are fewer.
\<close>

type_synonym topics = "(str \<times> str list) list"

definition topic_line :: "unicode_db \<Rightarrow> str \<Rightarrow> str" where
  "topic_line U topic = ascii ''- **'' @ capitalize U topic @ ascii ''**''"

definition example_path :: "str \<Rightarrow> str \<Rightarrow> str" where
  "example_path topic f = replace_backslash (os_path_join base_dir [topic, f])"

definition example_name :: "str \<Rightarrow> str" where
  "example_name f = take (length f - 5) f"

definition example_line :: "str \<Rightarrow> str \<Rightarrow> str" where
  "example_line topic f =
     ascii ''  - ['' @ example_name f @ ascii '']('' @ example_path topic f @ ascii '')''"

definition add_topic :: "unicode_db \<Rightarrow> str list \<Rightarrow> str \<times> str list \<Rightarrow> str list" where
  "add_topic U lines item =
     (case item of (topic, files) \<Rightarrow>
        foldl (\<lambda>ls f. ls @ [example_line topic f]) (lines @ [topic_line U topic]) (sort files)
        @ [[]])"

text \<open>
  The lines that one round of the outer loop appends: the bullet of the topic, the bullets
  of its files in sorted order, and the empty line.
\<close>

definition topic_block :: "unicode_db \<Rightarrow> str \<times> str list \<Rightarrow> str list" where
  "topic_block U item =
     (case item of (topic, files) \<Rightarrow>
        topic_line U topic # map (example_line topic) (sort files) @ [[]])"

definition section_lines :: "unicode_db \<Rightarrow> topics \<Rightarrow> str list" where
  "section_lines U topics = foldl (add_topic U) [start_heading @ [newline]] (sort topics)"

definition generate_section :: "unicode_db \<Rightarrow> topics \<Rightarrow> str" where
  "generate_section U topics = join_lines (section_lines U topics)"

section \<open>The collector\<close>

text \<open>
  The tree below the scan root: a directory has the names of its entries that are not
  directories (its files) and the names of its entries that are directories, both in the
  order in which the host lists them. Behind the name of a directory is its content, or
  \<open>None\<close> for a directory that the walk lists without entering it: a symbolic link to a
  directory (\<^verbatim>\<open>followlinks\<close> is off), or a directory that cannot be listed.
\<close>

datatype dir = Dir (dir_files: "str list") (dir_subdirs: "(str \<times> dir option) list")

text \<open>
  \<^verbatim>\<open>os.walk\<close>, top down: the directory itself, then each subdirectory that is entered, in
  turn. An error of the listing is ignored, so a root that does not exist yields nothing.
\<close>

fun os_walk :: "str \<Rightarrow> dir \<Rightarrow> (str \<times> str list \<times> str list) list" where
  "os_walk root (Dir files subdirs) =
     (root, map fst subdirs, files)
     # concat (map (\<lambda>p. case snd p of
                             None \<Rightarrow> []
                           | Some d \<Rightarrow> os_walk (join2 root (fst p)) d) subdirs)"

definition walk_base :: "dir option \<Rightarrow> (str \<times> str list \<times> str list) list" where
  "walk_base fs = (case fs of None \<Rightarrow> [] | Some d \<Rightarrow> os_walk base_dir d)"

text \<open>
  \<^verbatim>\<open>os.path.relpath\<close>. Both paths are relative to the same working directory and have no
  component that is empty, \<^verbatim>\<open>.\<close> or \<^verbatim>\<open>..\<close>; \<^verbatim>\<open>abspath\<close> then puts the components of
  the working directory before both, and the common prefix takes them away again, so
  they are left out here.
\<close>

fun split_sep :: "str \<Rightarrow> str list" where
  "split_sep [] = [[]]"
| "split_sep (c # cs) =
     (if c = slash then [] # split_sep cs
      else (case split_sep cs of [] \<Rightarrow> [[c]] | p # ps \<Rightarrow> (c # p) # ps))"

definition relpath :: "str \<Rightarrow> str \<Rightarrow> str" where
  "relpath path start =
     (let start_list = filter (\<lambda>x. x \<noteq> []) (split_sep start);
          path_list = filter (\<lambda>x. x \<noteq> []) (split_sep path);
          i = length (longest_common_prefix start_list path_list);
          rel_list = replicate (length start_list - i) (ascii ''..'') @ drop i path_list
      in if rel_list = [] then ascii ''.'' else os_path_join (hd rel_list) (tl rel_list))"

text \<open>\<^verbatim>\<open>topics.setdefault(topic, []).append(f)\<close>\<close>

fun setdefault_append :: "topics \<Rightarrow> str \<Rightarrow> str \<Rightarrow> topics" where
  "setdefault_append [] topic f = [(topic, [f])]"
| "setdefault_append ((k, fs) # d) topic f =
     (if k = topic then (k, fs @ [f]) # d else (k, fs) # setdefault_append d topic f)"

definition collect_dir :: "topics \<Rightarrow> str \<times> str list \<times> str list \<Rightarrow> topics" where
  "collect_dir topics entry =
     (case entry of (root, _, files) \<Rightarrow>
        foldl (\<lambda>ts f. if suffix java_suffix f
                       then setdefault_append ts (relpath root base_dir) f else ts)
          topics files)"

definition collect_examples :: "dir option \<Rightarrow> topics" where
  "collect_examples fs = foldl collect_dir [] (walk_base fs)"

text \<open>
  The directories that the walk enters, each with the names on the way to it from the scan
  root and with its files; the path that \<^verbatim>\<open>os.walk\<close> builds for such a directory; and the
  key that the relative path of a directory is shown to be: \<^verbatim>\<open>.\<close> for the scan root,
  the names joined by slashes below it.
\<close>

fun walk_dirs :: "str list \<Rightarrow> dir \<Rightarrow> (str list \<times> str list) list" where
  "walk_dirs ps (Dir files subdirs) =
     (ps, files)
     # concat (map (\<lambda>p. case snd p of
                             None \<Rightarrow> []
                           | Some d \<Rightarrow> walk_dirs (ps @ [fst p]) d) subdirs)"

definition dir_path :: "str list \<Rightarrow> str" where
  "dir_path ps = foldl join2 base_dir ps"

definition rel_key :: "str list \<Rightarrow> str" where
  "rel_key ps = (if ps = [] then ascii ''.'' else hd ps @ concat (map (Cons slash) (tl ps)))"

text \<open>
  The trees of a file system: the name of a directory is not empty, has no slash and is
  neither \<^verbatim>\<open>.\<close> nor \<^verbatim>\<open>..\<close>; no name is listed twice in a directory.
\<close>

definition valid_name :: "str \<Rightarrow> bool" where
  "valid_name n \<longleftrightarrow> n \<noteq> [] \<and> slash \<notin> set n \<and> n \<noteq> ascii ''.'' \<and> n \<noteq> ascii ''..''"

fun valid_tree :: "dir \<Rightarrow> bool" where
  "valid_tree (Dir files subdirs) \<longleftrightarrow>
     distinct files \<and> distinct (map fst subdirs) \<and>
     (\<forall>p \<in> set subdirs. valid_name (fst p) \<and>
        (case snd p of None \<Rightarrow> True | Some d \<Rightarrow> valid_tree d))"

section \<open>The pipeline\<close>

text \<open>
  \<^verbatim>\<open>main\<close> on a tree and a document (\<open>None\<close> when the file is missing): the text it
  writes back.
\<close>

definition main :: "unicode_db \<Rightarrow> dir option \<Rightarrow> str option \<Rightarrow> error + str" where
  "main U fs readme =
     (let topics = collect_examples fs;
          new_section = generate_section U topics
      in case readme of
           None \<Rightarrow> Inl FileNotFoundError
         | Some content \<Rightarrow> replace_section U content new_section)"

section \<open>Example inputs\<close>

text \<open>A document with two regions between the headings.\<close>

definition two_regions :: str where
  "two_regions = start_heading @ ascii ''a'' @ end_heading @ ascii ''b'' @ start_heading @ ascii ''c'' @ end_heading"

text \<open>A document with three texts around two regions.\<close>

definition three_texts :: str where
  "three_texts = ascii ''A'' @ start_heading @ ascii ''x'' @ end_heading @
                 ascii ''B'' @ start_heading @ ascii ''y'' @ end_heading @ ascii ''C''"

text \<open>A tree with a file at the root, a subdirectory and a link to a directory.\<close>

definition sample_tree :: dir where
  "sample_tree =
     Dir [ascii ''R.java'', ascii ''x.txt'']
       [(ascii ''b'', Some (Dir [ascii ''B.java''] [])), (ascii ''l'', None)]"






section \<open>Facts about the search\<close>

lemma prefix_drop_eq: "prefix pat s \<Longrightarrow> pat @ drop (length pat) s = s"
  by (auto simp: prefix_def)

lemma find_first_SomeD: "find_first pat s = Some (pre, post) \<Longrightarrow> s = pre @ pat @ post"
proof (induction s arbitrary: pre)
  case Nil
  then show ?case by (auto split: if_splits)
next
  case (Cons x xs)
  show ?case
  proof (cases "prefix pat (x # xs)")
    case True
    with Cons.prems show ?thesis using prefix_drop_eq [OF True] by auto
  next
    case False
    with Cons.prems obtain p where "find_first pat xs = Some (p, post)" "pre = x # p"
      by auto
    with Cons.IH show ?thesis by auto
  qed
qed

lemma find_first_first:
  "find_first pat s = Some (pre, post) \<Longrightarrow> i < length pre \<Longrightarrow> \<not> prefix pat (drop i s)"
proof (induction s arbitrary: pre i)
  case Nil
  then show ?case by (auto split: if_splits)
next
  case (Cons x xs)
  show ?case
  proof (cases "prefix pat (x # xs)")
    case True
    with Cons.prems show ?thesis by auto
  next
    case False
    with Cons.prems obtain p where p: "find_first pat xs = Some (p, post)" "pre = x # p"
      by auto
    show ?thesis
    proof (cases i)
      case 0
      with False show ?thesis by simp
    next
      case (Suc j)
      with Cons.prems p have "j < length p" by simp
      with Cons.IH p Suc show ?thesis by simp
    qed
  qed
qed

lemma find_first_None: "find_first pat s = None \<Longrightarrow> \<not> prefix pat (drop i s)"
proof (induction s arbitrary: i)
  case Nil
  then show ?case by (auto split: if_splits)
next
  case (Cons x xs)
  then have np: "\<not> prefix pat (x # xs)" and n: "find_first pat xs = None"
    by (auto split: if_splits)
  show ?case
  proof (cases i)
    case 0
    with np show ?thesis by simp
  next
    case (Suc j)
    with Cons.IH [OF n] show ?thesis by simp
  qed
qed

lemma find_first_intro:
  "(\<forall>i<length pre. \<not> prefix pat (drop i (pre @ pat @ post))) \<Longrightarrow>
   find_first pat (pre @ pat @ post) = Some (pre, post)"
proof (induction pre)
  case Nil
  show ?case
  proof (cases "pat @ post")
    case Nil
    then show ?thesis by simp
  next
    case (Cons a list)
    have "prefix pat (pat @ post)" by simp
    then have pr: "prefix pat (a # list)" unfolding Cons .
    have "drop (length pat) (pat @ post) = post" by simp
    then have "drop (length pat) (a # list) = post" unfolding Cons .
    with pr have "find_first pat (a # list) = Some ([], post)" by simp
    then show ?thesis using Cons by simp
  qed
next
  case (Cons x p)
  from Cons.prems have "\<not> prefix pat (drop 0 ((x # p) @ pat @ post))" by blast
  then have np: "\<not> prefix pat (x # p @ pat @ post)" by simp
  have "\<forall>i<length p. \<not> prefix pat (drop i (p @ pat @ post))"
  proof (intro allI impI)
    fix i assume "i < length p"
    then have "Suc i < length (x # p)" by simp
    with Cons.prems have "\<not> prefix pat (drop (Suc i) ((x # p) @ pat @ post))" by blast
    then show "\<not> prefix pat (drop i (p @ pat @ post))" by simp
  qed
  with Cons.IH have "find_first pat (p @ pat @ post) = Some (p, post)" by blast
  with np show ?case by simp
qed

lemma find_first_occurs:
  assumes "prefix pat (drop i s)"
  obtains pre post where "find_first pat s = Some (pre, post)" "length pre \<le> i"
proof (cases "find_first pat s")
  case None
  with assms show ?thesis using find_first_None by blast
next
  case (Some a)
  obtain pre post where a: "a = (pre, post)" by (cases a)
  have "length pre \<le> i"
  proof (rule ccontr)
    assume "\<not> length pre \<le> i"
    then have "i < length pre" by simp
    with Some a assms show False using find_first_first by blast
  qed
  with Some a that show ?thesis by blast
qed

lemma start_heading_pos: "0 < length start_heading"
  by (simp add: start_heading_def)

lemma match_here_SomeD:
  assumes "match_here s = Some (m, rest)"
  obtains mid where "m = start_heading @ mid @ end_heading" "s = m @ rest"
    "find_first start_heading s = Some ([], mid @ end_heading @ rest)"
    "find_first end_heading (mid @ end_heading @ rest) = Some (mid, rest)"
proof -
  from assms obtain mid where p: "prefix start_heading s"
    and f: "find_first end_heading (drop (length start_heading) s) = Some (mid, rest)"
    and m: "m = start_heading @ mid @ end_heading"
    by (auto simp: match_here_def split: if_splits option.splits)
  from find_first_SomeD [OF f] have d: "drop (length start_heading) s = mid @ end_heading @ rest" .
  with prefix_drop_eq [OF p] have s: "s = start_heading @ mid @ end_heading @ rest" by simp
  from p start_heading_pos have "s \<noteq> []" by auto
  then obtain c cs where cs: "s = c # cs" by (cases s) auto
  with p d have "find_first start_heading s = Some ([], mid @ end_heading @ rest)" by simp
  with m s f d that show ?thesis by simp
qed

lemma re_search_SomeD:
  "re_search s = Some (pre, m, rest) \<Longrightarrow>
   \<exists>mid. m = start_heading @ mid @ end_heading \<and> s = pre @ m @ rest \<and>
     find_first start_heading s = Some (pre, mid @ end_heading @ rest) \<and>
     find_first end_heading (mid @ end_heading @ rest) = Some (mid, rest)"
proof (induction s arbitrary: pre)
  case Nil
  then show ?case by simp
next
  case (Cons c cs)
  show ?case
  proof (cases "match_here (c # cs)")
    case (Some a)
    with Cons.prems have mh: "match_here (c # cs) = Some (m, rest)" and pre: "pre = []"
      by (cases a, auto)+
    from mh show ?thesis using pre by (elim match_here_SomeD) auto
  next
    case None
    with Cons.prems obtain p where p: "re_search cs = Some (p, m, rest)" "pre = c # p" by auto
    from Cons.IH [OF p(1)] obtain mid where mid: "m = start_heading @ mid @ end_heading"
      "cs = p @ m @ rest" "find_first start_heading cs = Some (p, mid @ end_heading @ rest)"
      "find_first end_heading (mid @ end_heading @ rest) = Some (mid, rest)" by blast
    have np: "\<not> prefix start_heading (c # cs)"
    proof
      assume pr: "prefix start_heading (c # cs)"
      with None have n: "find_first end_heading (drop (length start_heading) (c # cs)) = None"
        by (auto simp: match_here_def split: option.splits)
      let ?k = "Suc (length p) + length mid"
      have "drop (?k + length start_heading) (c # cs) = end_heading @ rest"
        using mid(1,2) by simp
      then have "prefix end_heading (drop ?k (drop (length start_heading) (c # cs)))"
        by (simp add: add.commute)
      with find_first_None [OF n] show False by blast
    qed
    with mid p show ?thesis by auto
  qed
qed

lemma re_search_NoneD:
  "re_search s = None \<Longrightarrow>
   find_first start_heading s = None \<or>
   (\<exists>pre x. find_first start_heading s = Some (pre, x) \<and> find_first end_heading x = None)"
proof (induction s)
  case Nil
  then show ?case by (simp add: start_heading_def)
next
  case (Cons c cs)
  then have mh: "match_here (c # cs) = None" and r: "re_search cs = None"
    by (auto split: option.splits)
  show ?case
  proof (cases "prefix start_heading (c # cs)")
    case True
    with mh show ?thesis by (auto simp: match_here_def split: option.splits)
  next
    case False
    with Cons.IH [OF r] show ?thesis by auto
  qed
qed

lemma re_search_None_iff:
  "re_search s = None \<longleftrightarrow> \<not> (\<exists>a b c. s = a @ start_heading @ b @ end_heading @ c)"
proof
  assume n: "re_search s = None"
  show "\<not> (\<exists>a b c. s = a @ start_heading @ b @ end_heading @ c)"
  proof
    assume "\<exists>a b c. s = a @ start_heading @ b @ end_heading @ c"
    then obtain a b c where s: "s = a @ start_heading @ b @ end_heading @ c" by blast
    then have "prefix start_heading (drop (length a) s)" by simp
    then obtain pre x where f: "find_first start_heading s = Some (pre, x)" and le: "length pre \<le> length a"
      by (rule find_first_occurs)
    from find_first_SomeD [OF f] have sx: "s = pre @ start_heading @ x" .
    then have x: "x = drop (length pre + length start_heading) s" by simp
    let ?k = "length a + length b - length pre"
    have "drop (?k + (length pre + length start_heading)) s = end_heading @ c"
      using s le by simp
    then have "prefix end_heading (drop ?k x)" unfolding x by (simp add: add.commute)
    then have "find_first end_heading x \<noteq> None" using find_first_None by blast
    with re_search_NoneD [OF n] f show False by auto
  qed
next
  assume a: "\<not> (\<exists>a b c. s = a @ start_heading @ b @ end_heading @ c)"
  show "re_search s = None"
  proof (cases "re_search s")
    case None
    then show ?thesis .
  next
    case (Some t)
    obtain pre m rest where "t = (pre, m, rest)" by (cases t)
    with Some re_search_SomeD have "\<exists>mid. s = pre @ (start_heading @ mid @ end_heading) @ rest"
      by blast
    with a show ?thesis by auto
  qed
qed

section \<open>Facts about the template and the loop\<close>

lemma tokenize_plain: "backslash \<notin> set s \<Longrightarrow> tokenize s = Inr (map Chr s)"
  by (induction s rule: tokenize.induct) auto

lemma parse_template_plain: "parse_template U (map Chr s) = Inr (map Lit s)"
  by (induction s) auto

lemma compile_template_plain:
  "backslash \<notin> set s \<Longrightarrow> compile_template U s = Inr (map Lit s)"
  by (simp add: compile_template_def tokenize_plain parse_template_plain)

lemma expand_template_plain: "expand_template (map Lit s) m = s"
  by (induction s) (auto simp: expand_template_def)

lemma end_heading_no_backslash: "backslash \<notin> set end_heading"
  by (simp add: end_heading_def ascii_def backslash_def)

lemma start_heading_no_backslash: "backslash \<notin> set start_heading"
  by (simp add: start_heading_def ascii_def backslash_def)


lemma re_sub_loop_None: "re_search s = None \<Longrightarrow> re_sub_loop tmpl s = s"
  by (simp add: re_sub_loop.simps)

lemma re_sub_loop_Some:
  "re_search s = Some (pre, m, rest) \<Longrightarrow>
   re_sub_loop tmpl s = pre @ expand_template tmpl m @ re_sub_loop tmpl rest"
  by (simp add: re_sub_loop.simps)

lemma replace_section_plain:
  assumes "backslash \<notin> set new_section"
  shows "replace_section U content new_section =
         Inr (re_sub_loop (map Lit (new_section @ [newline] @ end_heading)) content)"
proof -
  from assms end_heading_no_backslash
  have "backslash \<notin> set (new_section @ [newline] @ end_heading)"
    by (simp add: newline_def backslash_def)
  then have "compile_template U (new_section @ [newline] @ end_heading) =
             Inr (map Lit (new_section @ [newline] @ end_heading))"
    by (rule compile_template_plain)
  then show ?thesis
    unfolding replace_section_def re_sub_def by simp
qed

lemma generate_section_empty: "generate_section U [] = start_heading @ [newline]"
  by (simp add: generate_section_def section_lines_def)

lemma not_prefix_hd: "pat \<noteq> [] \<Longrightarrow> hd pat \<noteq> x \<Longrightarrow> \<not> prefix pat (x # xs)"
  by (cases pat) auto

lemma no_occurrence_before:
  assumes "pat \<noteq> []" "hd pat \<notin> set pre" "i < length pre"
  shows "\<not> prefix pat (drop i (pre @ s))"
proof -
  from assms(3) have "drop i (pre @ s) = (pre ! i) # drop (Suc i) pre @ s"
    by (simp add: Cons_nth_drop_Suc)
  moreover from assms(2,3) have "hd pat \<noteq> pre ! i" by (metis nth_mem)
  ultimately show ?thesis using assms(1) by (simp add: not_prefix_hd)
qed

lemma re_search_intro:
  assumes "\<forall>i<length pre. \<not> prefix start_heading (drop i (pre @ start_heading @ mid @ end_heading @ post))"
    and "\<forall>i<length mid. \<not> prefix end_heading (drop i (mid @ end_heading @ post))"
  shows "re_search (pre @ start_heading @ mid @ end_heading @ post) =
         Some (pre, start_heading @ mid @ end_heading, post)"
  using assms(1)
proof (induction pre)
  case Nil
  from assms(2) have f: "find_first end_heading (mid @ end_heading @ post) = Some (mid, post)"
    by (rule find_first_intro)
  have m: "match_here (start_heading @ mid @ end_heading @ post) =
           Some (start_heading @ mid @ end_heading, post)"
    by (simp add: match_here_def f)
  from start_heading_pos obtain c cs where "start_heading @ mid @ end_heading @ post = c # cs"
    by (cases "start_heading @ mid @ end_heading @ post") auto
  with m show ?case by simp
next
  case (Cons x p)
  let ?s = "start_heading @ mid @ end_heading @ post"
  from Cons.prems have "\<not> prefix start_heading (drop 0 ((x # p) @ ?s))" by blast
  then have np: "match_here (x # p @ ?s) = None" by (simp add: match_here_def)
  have "\<forall>i<length p. \<not> prefix start_heading (drop i (p @ ?s))"
  proof (intro allI impI)
    fix i assume "i < length p"
    then have "Suc i < length (x # p)" by simp
    with Cons.prems have "\<not> prefix start_heading (drop (Suc i) ((x # p) @ ?s))" by blast
    then show "\<not> prefix start_heading (drop i (p @ ?s))" by simp
  qed
  with Cons.IH have "re_search (p @ ?s) = Some (p, start_heading @ mid @ end_heading, post)"
    by blast
  with np show ?case by simp
qed

lemma tokenize_error: "tokenize s = Inl e \<Longrightarrow> e = TemplateError"
proof (induction s rule: tokenize.induct)
  case 1
  then show ?case by simp
next
  case (2 c)
  then show ?case by (simp split: if_splits)
next
  case (3 c d ds)
  show ?case
  proof (cases "c = backslash")
    case True
    with 3 show ?thesis by (cases "tokenize ds") auto
  next
    case False
    with 3 show ?thesis by (cases "tokenize (d # ds)") auto
  qed
qed





lemma hd_start_heading: "hd start_heading = 35"
  by (simp add: start_heading_def ascii_def)

lemma hd_end_heading: "hd end_heading = 35"
  by (simp add: end_heading_def ascii_def)

lemma start_heading_nonempty: "start_heading \<noteq> []"
  by (simp add: start_heading_def)

lemma end_heading_nonempty: "end_heading \<noteq> []"
  by (simp add: end_heading_def)

lemma re_search_no_hash: "35 \<notin> set s \<Longrightarrow> re_search s = None"
proof (rule ccontr)
  assume h: "35 \<notin> set s" and "re_search s \<noteq> None"
  then obtain pre m rest where "re_search s = Some (pre, m, rest)" by auto
  from re_search_SomeD [OF this] obtain mid where "s = pre @ (start_heading @ mid @ end_heading) @ rest"
    by blast
  then have "hd start_heading \<in> set s" using start_heading_nonempty by auto
  with h show False by (simp add: hd_start_heading)
qed

lemma re_sub_loop_first:
  assumes "35 \<notin> set pre" "35 \<notin> set mid"
  shows "re_sub_loop t (pre @ start_heading @ mid @ end_heading @ post) =
         pre @ expand_template t (start_heading @ mid @ end_heading) @ re_sub_loop t post"
proof -
  have 1: "\<forall>i<length pre. \<not> prefix start_heading (drop i (pre @ start_heading @ mid @ end_heading @ post))"
    using no_occurrence_before [OF start_heading_nonempty] assms(1) by (simp add: hd_start_heading)
  have 2: "\<forall>i<length mid. \<not> prefix end_heading (drop i (mid @ end_heading @ post))"
    using no_occurrence_before [OF end_heading_nonempty] assms(2) by (simp add: hd_end_heading)
  from re_search_intro [OF 1 2] show ?thesis by (rule re_sub_loop_Some)
qed

lemma replace_section_no_hash:
  assumes "backslash \<notin> set blk" "35 \<notin> set s"
  shows "replace_section U s blk = Inr s"
  using assms by (simp add: replace_section_plain re_sub_loop_None re_search_no_hash)

lemma after_last_match_None: "re_search s = None \<Longrightarrow> after_last_match s = s"
  by (simp add: after_last_match.simps)

lemma after_last_match_Some:
  "re_search s = Some (pre, m, rest) \<Longrightarrow> after_last_match s = after_last_match rest"
  by (simp add: after_last_match.simps)

lemma after_last_match_kept:
  "suffix (after_last_match s) s \<and> suffix (after_last_match s) (re_sub_loop tmpl s) \<and>
   re_search (after_last_match s) = None"
proof (induction s rule: after_last_match.induct)
  case (1 s)
  show ?case
  proof (cases "re_search s")
    case None
    then show ?thesis by (simp add: after_last_match_None re_sub_loop_None)
  next
    case (Some t)
    obtain pre m rest where t: "t = (pre, m, rest)" by (cases t)
    with Some have r: "re_search s = Some (pre, m, rest)" by simp
    from re_search_SomeD [OF r] have s: "s = pre @ m @ rest" by blast
    from "1.IH" [OF r refl refl]
    have ih: "suffix (after_last_match rest) rest"
      "suffix (after_last_match rest) (re_sub_loop tmpl rest)"
      "re_search (after_last_match rest) = None" by blast+
    have a: "after_last_match s = after_last_match rest" using r by (rule after_last_match_Some)
    have l: "re_sub_loop tmpl s = pre @ expand_template tmpl m @ re_sub_loop tmpl rest"
      using r by (rule re_sub_loop_Some)
    have 1: "suffix (after_last_match s) s"
      unfolding a using ih(1) s by (metis suffix_append)
    have 2: "suffix (after_last_match s) (re_sub_loop tmpl s)"
      unfolding a l using ih(2) by (metis suffix_append)
    from 1 2 ih(3) a show ?thesis by simp
  qed
qed

section \<open>Facts about the renderer\<close>

lemma foldl_snoc_map: "foldl (\<lambda>ls f. ls @ [g f]) acc xs = acc @ map g xs"
  by (induction xs arbitrary: acc) auto

lemma add_topic_eq: "add_topic U lines item = lines @ topic_block U item"
  by (cases item) (simp add: add_topic_def topic_block_def foldl_snoc_map)

lemma foldl_add_topic: "foldl (add_topic U) acc items = acc @ concat (map (topic_block U) items)"
  by (induction items arbitrary: acc) (auto simp: add_topic_eq)

lemma section_lines_eq:
  "section_lines U topics =
   (start_heading @ [newline]) # concat (map (topic_block U) (sort topics))"
  by (simp add: section_lines_def foldl_add_topic)






lemma suffix_single: "suffix [x] ys \<longleftrightarrow> ys \<noteq> [] \<and> last ys = x"
proof
  assume "suffix [x] ys"
  then show "ys \<noteq> [] \<and> last ys = x" by (auto simp: suffix_def)
next
  assume "ys \<noteq> [] \<and> last ys = x"
  then have "ys = butlast ys @ [x]" by (metis append_butlast_last_id)
  then show "suffix [x] ys" by (metis suffixI)
qed








section \<open>Facts about blocks with an escape\<close>

lemma tokenize_append_plain:
  "backslash \<notin> set a \<Longrightarrow> tokenize (a @ backslash # c # b) =
     map_sum id (\<lambda>ts. map Chr a @ Esc c # ts) (tokenize b)"
proof (induction a)
  case Nil
  show ?case by (cases "tokenize b") auto
next
  case (Cons x xs)
  from Cons.prems have x: "x \<noteq> backslash" and xs: "backslash \<notin> set xs" by auto
  note ih = Cons.IH [OF xs]
  obtain d ds where d: "xs @ backslash # c # b = d # ds" by (cases "xs @ backslash # c # b") auto
  have "tokenize ((x # xs) @ backslash # c # b) =
        map_sum id (Cons (Chr x)) (tokenize (xs @ backslash # c # b))"
    using x d by simp
  then show ?case unfolding ih by (cases "tokenize b") auto
qed

lemma parse_template_append_plain:
  "parse_template U (map Chr a @ ts) = map_sum id (append (map Lit a)) (parse_template U ts)"
proof (induction a)
  case Nil
  show ?case by (cases "parse_template U ts") auto
next
  case (Cons x xs)
  then show ?case by (cases "parse_template U ts") auto
qed

lemma compile_template_bad_escape:
  assumes "backslash \<notin> set a" "is_ascii_letter c" "escapes c = None" "c \<noteq> 103"
  shows "compile_template U (a @ backslash # c # b) = Inl TemplateError"
proof (cases "tokenize b")
  case (Inl e)
  then have "e = TemplateError" by (rule tokenize_error)
  with Inl show ?thesis
    by (simp add: compile_template_def tokenize_append_plain [OF assms(1)])
next
  case (Inr ts)
  have d: "\<not> is_digit c" "c \<noteq> 48" using assms(2) by (auto simp: is_ascii_letter_def is_digit_def)
  have "parse_escape U c ts = Inl TemplateError"
    using assms(2,3,4) d by (simp add: parse_escape_def)
  then have "parse_template U (Esc c # ts) = Inl TemplateError" by simp
  then have "parse_template U (map Chr a @ Esc c # ts) = Inl TemplateError"
    by (simp add: parse_template_append_plain)
  with Inr show ?thesis
    by (simp add: compile_template_def tokenize_append_plain [OF assms(1)])
qed

lemma compile_template_escape:
  assumes "backslash \<notin> set a" "backslash \<notin> set b" "escapes c = Some v" "c \<noteq> 103"
    "\<not> is_digit c"
  shows "compile_template U (a @ backslash # c # b) = Inr (map Lit (a @ v # b))"
proof -
  have t: "tokenize b = Inr (map Chr b)" using assms(2) by (rule tokenize_plain)
  have c48: "c \<noteq> 48" using assms(5) by (auto simp: is_digit_def)
  have "parse_escape U c (map Chr b) = Inr ([Lit v], map Chr b)"
    using assms(3,4,5) c48 by (simp add: parse_escape_def)
  then have "parse_template U (Esc c # map Chr b) = Inr (Lit v # map Lit b)"
    by (simp add: parse_template_plain)
  then have "parse_template U (map Chr a @ Esc c # map Chr b) = Inr (map Lit a @ Lit v # map Lit b)"
    by (simp add: parse_template_append_plain)
  then show ?thesis
    by (simp add: compile_template_def tokenize_append_plain [OF assms(1)] t)
qed

lemma generate_section_single:
  "generate_section U [(t, [f])] =
     start_heading @ [newline, newline] @ topic_line U t @ [newline] @ example_line t f @ [newline]"
  by (simp add: generate_section_def section_lines_eq topic_block_def)

lemma topic_line_t: "topic_line U (ascii ''t'') = ascii ''- **T**''"
  by (simp add: topic_line_def capitalize_def to_title_def ascii_upper_def ascii_def)

lemma example_line_q:
  "example_line (ascii ''t'') (ascii ''a'' @ [backslash] @ ascii ''q.java'') =
     ascii ''  - [a'' @ [backslash] @ ascii ''q](src/main/java/t/a/q.java)''"
  by (simp add: example_line_def example_name_def example_path_def os_path_join_def join2_def
      replace_backslash_def base_dir_def suffix_single ascii_def slash_def backslash_def)

lemma example_line_n:
  "example_line (ascii ''t'') (ascii ''a'' @ [backslash] @ ascii ''n.java'') =
     ascii ''  - [a'' @ [backslash] @ ascii ''n](src/main/java/t/a/n.java)''"
  by (simp add: example_line_def example_name_def example_path_def os_path_join_def join2_def
      replace_backslash_def base_dir_def suffix_single ascii_def slash_def backslash_def)

lemma bad_escape_block:
  "replace_section U content
     (generate_section U [(ascii ''t'', [ascii ''a'' @ [backslash] @ ascii ''q.java''])]) =
   Inl TemplateError"
proof -
  let ?a = "start_heading @ [newline, newline] @ ascii ''- **T**'' @ [newline] @ ascii ''  - [a''"
  let ?b = "ascii ''](src/main/java/t/a/q.java)'' @ [newline, newline] @ end_heading"
  have e: "generate_section U [(ascii ''t'', [ascii ''a'' @ [backslash] @ ascii ''q.java''])] @
           [newline] @ end_heading = ?a @ backslash # 113 # ?b"
    unfolding generate_section_single topic_line_t example_line_q by (simp add: ascii_def)
  have a: "backslash \<notin> set ?a"
    using start_heading_no_backslash by (simp add: ascii_def newline_def backslash_def)
  have "compile_template U (?a @ backslash # 113 # ?b) = Inl TemplateError"
    using a by (rule compile_template_bad_escape) (simp_all add: is_ascii_letter_def escapes_def)
  then show ?thesis unfolding replace_section_def re_sub_def e by simp
qed

lemma newline_escape_block:
  assumes "35 \<notin> set pre" "35 \<notin> set mid" "35 \<notin> set post"
  shows "replace_section U (pre @ start_heading @ mid @ end_heading @ post)
     (generate_section U [(ascii ''t'', [ascii ''a'' @ [backslash] @ ascii ''n.java''])]) =
   Inr (pre @ start_heading @ [newline, newline] @ ascii ''- **T**'' @ [newline] @
        ascii ''  - [a'' @ [newline] @ ascii ''](src/main/java/t/a/n.java)'' @
        [newline, newline] @ end_heading @ post)"
proof -
  let ?a = "start_heading @ [newline, newline] @ ascii ''- **T**'' @ [newline] @ ascii ''  - [a''"
  let ?b = "ascii ''](src/main/java/t/a/n.java)'' @ [newline, newline] @ end_heading"
  have e: "generate_section U [(ascii ''t'', [ascii ''a'' @ [backslash] @ ascii ''n.java''])] @
           [newline] @ end_heading = ?a @ backslash # 110 # ?b"
    unfolding generate_section_single topic_line_t example_line_n by (simp add: ascii_def)
  have a: "backslash \<notin> set ?a"
    using start_heading_no_backslash by (simp add: ascii_def newline_def backslash_def)
  have b: "backslash \<notin> set ?b"
    using end_heading_no_backslash by (simp add: ascii_def newline_def backslash_def)
  have c: "compile_template U (?a @ backslash # 110 # ?b) = Inr (map Lit (?a @ 10 # ?b))"
    using a b by (rule compile_template_escape) (simp_all add: is_digit_def escapes_def)
  have 1: "re_sub_loop (map Lit (?a @ 10 # ?b)) (pre @ start_heading @ mid @ end_heading @ post) =
      pre @ expand_template (map Lit (?a @ 10 # ?b)) (start_heading @ mid @ end_heading) @
      re_sub_loop (map Lit (?a @ 10 # ?b)) post"
    using assms(1,2) by (rule re_sub_loop_first)
  have 2: "re_sub_loop (map Lit (?a @ 10 # ?b)) post = post"
    using assms(3) by (simp add: re_sub_loop_None re_search_no_hash)
  have r: "replace_section U (pre @ start_heading @ mid @ end_heading @ post)
     (generate_section U [(ascii ''t'', [ascii ''a'' @ [backslash] @ ascii ''n.java''])]) =
     Inr (re_sub_loop (map Lit (?a @ 10 # ?b)) (pre @ start_heading @ mid @ end_heading @ post))"
    unfolding replace_section_def re_sub_def e c by (simp only: sum.case)
  have "replace_section U (pre @ start_heading @ mid @ end_heading @ post)
     (generate_section U [(ascii ''t'', [ascii ''a'' @ [backslash] @ ascii ''n.java''])]) =
     Inr (pre @ (?a @ 10 # ?b) @ post)"
    by (simp only: r 1 2 expand_template_plain)
  then show ?thesis by (simp add: newline_def)
qed


section \<open>Facts about the collector\<close>

lemma os_walk_dirs:
  "map (\<lambda>(r, ds, fs). (r, fs)) (os_walk (foldl join2 b ps) d) =
   map (\<lambda>(qs, fs). (foldl join2 b qs, fs)) (walk_dirs ps d)"
proof (induction ps d rule: walk_dirs.induct)
  case (1 ps files subdirs)
  have "\<And>p. p \<in> set subdirs \<Longrightarrow>
      map (\<lambda>(r, ds, fs). (r, fs))
        (case snd p of None \<Rightarrow> [] | Some d \<Rightarrow> os_walk (join2 (foldl join2 b ps) (fst p)) d) =
      map (\<lambda>(qs, fs). (foldl join2 b qs, fs))
        (case snd p of None \<Rightarrow> [] | Some d \<Rightarrow> walk_dirs (ps @ [fst p]) d)"
  proof -
    fix p assume p: "p \<in> set subdirs"
    show "map (\<lambda>(r, ds, fs). (r, fs))
        (case snd p of None \<Rightarrow> [] | Some d \<Rightarrow> os_walk (join2 (foldl join2 b ps) (fst p)) d) =
      map (\<lambda>(qs, fs). (foldl join2 b qs, fs))
        (case snd p of None \<Rightarrow> [] | Some d \<Rightarrow> walk_dirs (ps @ [fst p]) d)"
    proof (cases "snd p")
      case None
      then show ?thesis by simp
    next
      case (Some d)
      from "1.IH" [OF p Some] Some show ?thesis by simp
    qed
  qed
  then show ?case by (simp add: map_concat comp_def cong: map_cong)
qed


lemma setdefault_append_new:
  "k \<notin> fst ` set acc \<Longrightarrow> setdefault_append acc k f = acc @ [(k, [f])]"
  by (induction acc) auto

lemma setdefault_append_last:
  "k \<notin> fst ` set acc \<Longrightarrow> setdefault_append (acc @ [(k, fs)]) k f = acc @ [(k, fs @ [f])]"
  by (induction acc) auto

lemma foldl_setdefault_started:
  "k \<notin> fst ` set acc \<Longrightarrow>
   foldl (\<lambda>ts f. if P f then setdefault_append ts k f else ts) (acc @ [(k, fs)]) files =
   acc @ [(k, fs @ filter P files)]"
  by (induction files arbitrary: fs) (auto simp: setdefault_append_last)

lemma foldl_setdefault:
  "k \<notin> fst ` set acc \<Longrightarrow>
   foldl (\<lambda>ts f. if P f then setdefault_append ts k f else ts) acc files =
   (if filter P files = [] then acc else acc @ [(k, filter P files)])"
proof (induction files)
  case Nil
  show ?case by simp
next
  case (Cons f files)
  show ?case
  proof (cases "P f")
    case True
    with Cons.prems show ?thesis
      using foldl_setdefault_started [of k acc P "[f]" files]
      by (simp add: setdefault_append_new)
  next
    case False
    with Cons show ?thesis by simp
  qed
qed

lemma collect_dir_new:
  "relpath r base_dir \<notin> fst ` set acc \<Longrightarrow>
   collect_dir acc (r, ds, files) =
   (if filter (suffix java_suffix) files = [] then acc
    else acc @ [(relpath r base_dir, filter (suffix java_suffix) files)])"
  unfolding collect_dir_def by (simp add: foldl_setdefault)

lemma foldl_collect_dir:
  assumes "map (\<lambda>(r, ds, fs). (r, fs)) es = ws"
    and "distinct (map (\<lambda>w. relpath (fst w) base_dir) ws)"
    and "\<forall>w\<in>set ws. relpath (fst w) base_dir \<notin> fst ` set acc"
  shows "foldl collect_dir acc es =
         acc @ map (\<lambda>w. (relpath (fst w) base_dir, filter (suffix java_suffix) (snd w)))
                 (filter (\<lambda>w. filter (suffix java_suffix) (snd w) \<noteq> []) ws)"
  using assms
proof (induction es arbitrary: acc ws)
  case Nil
  then show ?case by auto
next
  case (Cons e es)
  obtain r ds files where e: "e = (r, ds, files)" by (cases e)
  let ?k = "relpath r base_dir"
  let ?js = "filter (suffix java_suffix) files"
  from Cons.prems(1) e obtain ws' where ws: "ws = (r, files) # ws'"
    and ws': "map (\<lambda>(r, ds, fs). (r, fs)) es = ws'" by auto
  from Cons.prems(3) ws have k: "?k \<notin> fst ` set acc" by simp
  let ?acc = "if ?js = [] then acc else acc @ [(?k, ?js)]"
  have c: "collect_dir acc e = ?acc" unfolding e using k by (rule collect_dir_new)
  from Cons.prems(2) ws have d: "distinct (map (\<lambda>w. relpath (fst w) base_dir) ws')"
    and ni: "?k \<notin> (\<lambda>w. relpath (fst w) base_dir) ` set ws'" by auto
  from ni have nk: "\<forall>w\<in>set ws'. relpath (fst w) base_dir \<noteq> ?k" by force
  have "\<forall>w\<in>set ws'. relpath (fst w) base_dir \<notin> fst ` set ?acc"
    using Cons.prems(3) ws nk by auto
  from Cons.IH [OF ws' d this] c ws show ?case by simp
qed

lemma join2_name:
  assumes "p \<noteq> []" "last p \<noteq> slash" "n \<noteq> []" "slash \<notin> set n"
  shows "join2 p n = p @ slash # n"
proof -
  from assms(3,4) have "\<not> prefix [slash] n" by (cases n) auto
  moreover from assms(1,2) have "\<not> suffix [slash] p" by (simp add: suffix_single)
  ultimately show ?thesis using assms(1) by (simp add: join2_def)
qed

lemma foldl_join2_names:
  assumes "p \<noteq> []" "last p \<noteq> slash" "\<forall>n\<in>set ps. n \<noteq> [] \<and> slash \<notin> set n"
  shows "foldl join2 p ps = p @ concat (map (Cons slash) ps)"
  using assms
proof (induction ps arbitrary: p)
  case Nil
  show ?case by simp
next
  case (Cons n ps)
  then have n: "n \<noteq> []" "slash \<notin> set n" by auto
  have j: "join2 p n = p @ slash # n" using Cons.prems(1,2) n by (rule join2_name)
  have "last n \<in> set n" using n(1) by (rule last_in_set)
  with n(2) have "last n \<noteq> slash" by metis
  with n(1) have "last (p @ slash # n) \<noteq> slash" by simp
  moreover have "p @ slash # n \<noteq> []" by simp
  moreover from Cons.prems(3) have "\<forall>n\<in>set ps. n \<noteq> [] \<and> slash \<notin> set n" by simp
  ultimately have "foldl join2 (p @ slash # n) ps = (p @ slash # n) @ concat (map (Cons slash) ps)"
    using Cons.IH by blast
  with j show ?case by simp
qed

lemma split_sep_nonempty: "split_sep s \<noteq> []"
  by (induction s) (auto split: list.splits)

lemma split_sep_name: "slash \<notin> set a \<Longrightarrow> split_sep (a @ slash # rest) = a # split_sep rest"
  by (induction a) (auto split: list.splits)

lemma split_sep_single: "slash \<notin> set a \<Longrightarrow> split_sep a = [a]"
  by (induction a) (auto split: list.splits)

lemma split_sep_names:
  assumes "slash \<notin> set a" "\<forall>n\<in>set ps. slash \<notin> set n"
  shows "split_sep (a @ concat (map (Cons slash) ps)) = a # ps"
  using assms
proof (induction ps arbitrary: a)
  case Nil
  then show ?case by (simp add: split_sep_single)
next
  case (Cons n ps)
  then have "split_sep (n @ concat (map (Cons slash) ps)) = n # ps" by simp
  with Cons.prems(1) show ?case by (simp add: split_sep_name)
qed

lemma split_sep_base_dir:
  assumes "\<forall>n\<in>set ps. slash \<notin> set n"
  shows "split_sep (base_dir @ concat (map (Cons slash) ps)) =
         [ascii ''src'', ascii ''main'', ascii ''java''] @ ps"
proof -
  have b: "base_dir = ascii ''src'' @ slash # ascii ''main'' @ slash # ascii ''java''"
    by (simp add: base_dir_def ascii_def slash_def)
  have j: "slash \<notin> set (ascii ''java'')" "slash \<notin> set (ascii ''main'')"
    "slash \<notin> set (ascii ''src'')" by (simp_all add: ascii_def slash_def)
  have "split_sep (ascii ''java'' @ concat (map (Cons slash) ps)) = ascii ''java'' # ps"
    using j(1) assms by (rule split_sep_names)
  then show ?thesis unfolding b using j(2,3) by (simp add: split_sep_name)
qed

lemma longest_common_prefix_append: "longest_common_prefix xs (xs @ ys) = xs"
  by (induction xs) auto

lemma dir_path_names:
  assumes "\<forall>n\<in>set ps. n \<noteq> [] \<and> slash \<notin> set n"
  shows "dir_path ps = base_dir @ concat (map (Cons slash) ps)"
  unfolding dir_path_def
  by (rule foldl_join2_names) (use assms in \<open>simp_all add: base_dir_def ascii_def slash_def\<close>)

lemma relpath_below:
  assumes "filter (\<lambda>x. x \<noteq> []) (split_sep start) = b"
    and "filter (\<lambda>x. x \<noteq> []) (split_sep path) = b @ ps"
  shows "relpath path start = (if ps = [] then ascii ''.'' else os_path_join (hd ps) (tl ps))"
  unfolding relpath_def assms Let_def by (simp add: longest_common_prefix_append)

lemma relpath_dir_path:
  assumes "\<forall>n\<in>set ps. n \<noteq> [] \<and> slash \<notin> set n"
  shows "relpath (dir_path ps) base_dir = rel_key ps"
proof -
  from assms have ns: "\<forall>n\<in>set ps. slash \<notin> set n" by blast
  have s0: "split_sep base_dir = [ascii ''src'', ascii ''main'', ascii ''java'']"
    using split_sep_base_dir [of "[]"] by simp
  have s1: "split_sep (dir_path ps) = [ascii ''src'', ascii ''main'', ascii ''java''] @ ps"
    unfolding dir_path_names [OF assms] using ns by (rule split_sep_base_dir)
  have f0: "filter (\<lambda>x. x \<noteq> []) [ascii ''src'', ascii ''main'', ascii ''java''] =
            [ascii ''src'', ascii ''main'', ascii ''java'']" by (simp add: ascii_def)
  have f1: "filter (\<lambda>x. x \<noteq> []) ps = ps" using assms by (simp add: filter_id_conv)
  have r: "relpath (dir_path ps) base_dir =
           (if ps = [] then ascii ''.'' else os_path_join (hd ps) (tl ps))"
    by (rule relpath_below) (simp_all only: s0 s1 filter_append f0 f1)
  show ?thesis
  proof (cases ps)
    case Nil
    with r show ?thesis by (simp add: rel_key_def)
  next
    case (Cons n ns)
    with assms have n: "n \<noteq> []" "slash \<notin> set n" "\<forall>m\<in>set ns. m \<noteq> [] \<and> slash \<notin> set m" by auto
    from n(1,2) have "last n \<noteq> slash" by (metis last_in_set)
    with n have "foldl join2 n ns = n @ concat (map (Cons slash) ns)"
      by (intro foldl_join2_names) auto
    with r Cons show ?thesis by (simp add: rel_key_def os_path_join_def)
  qed
qed

lemma rel_key_inj:
  assumes "\<forall>n\<in>set ps. valid_name n" "\<forall>n\<in>set qs. valid_name n" "rel_key ps = rel_key qs"
  shows "ps = qs"
proof -
  have sp: "\<And>xs. \<forall>n\<in>set xs. valid_name n \<Longrightarrow> xs \<noteq> [] \<Longrightarrow> split_sep (rel_key xs) = xs"
  proof -
    fix xs :: "str list" assume v: "\<forall>n\<in>set xs. valid_name n" and ne: "xs \<noteq> []"
    then obtain n ns where xs: "xs = n # ns" by (cases xs) auto
    with v have "slash \<notin> set n" "\<forall>m\<in>set ns. slash \<notin> set m" by (auto simp: valid_name_def)
    then have "split_sep (n @ concat (map (Cons slash) ns)) = n # ns" by (rule split_sep_names)
    with xs show "split_sep (rel_key xs) = xs" by (simp add: rel_key_def)
  qed
  have dot: "split_sep (ascii ''.'') = [ascii ''.'']"
    by (rule split_sep_single) (simp add: ascii_def slash_def)
  have nd: "\<And>xs. \<forall>n\<in>set xs. valid_name n \<Longrightarrow> xs \<noteq> [] \<Longrightarrow> rel_key xs \<noteq> ascii ''.''"
  proof
    fix xs :: "str list" assume v: "\<forall>n\<in>set xs. valid_name n" and ne: "xs \<noteq> []"
      and e: "rel_key xs = ascii ''.''"
    from sp [OF v ne] e dot have "xs = [ascii ''.'']" by simp
    with v show False by (simp add: valid_name_def)
  qed
  show ?thesis
  proof (cases "ps = []")
    case True
    with assms(3) have "rel_key qs = ascii ''.''" by (simp add: rel_key_def)
    with nd [OF assms(2)] have "qs = []" by blast
    with True show ?thesis by simp
  next
    case False
    have "qs \<noteq> []"
    proof
      assume "qs = []"
      with assms(3) have "rel_key ps = ascii ''.''" by (simp add: rel_key_def)
      with nd [OF assms(1) False] show False by blast
    qed
    then have q: "split_sep (rel_key qs) = qs" using assms(2) sp by blast
    have "ps = split_sep (rel_key ps)" using sp [OF assms(1) False] by (rule sym)
    also have "\<dots> = split_sep (rel_key qs)" by (simp only: assms(3))
    also have "\<dots> = qs" by (rule q)
    finally show ?thesis .
  qed
qed


lemma walk_dirs_prefix: "e \<in> set (walk_dirs ps d) \<Longrightarrow> prefix ps (fst e)"
proof (induction ps d arbitrary: e rule: walk_dirs.induct)
  case (1 ps files subdirs)
  from "1.prems" consider "e = (ps, files)"
    | p d where "p \<in> set subdirs" "snd p = Some d" "e \<in> set (walk_dirs (ps @ [fst p]) d)"
    by (auto split: option.splits)
  then show ?case
  proof cases
    case 1
    then show ?thesis by simp
  next
    case 2
    from "1.IH" [OF 2] have "prefix (ps @ [fst p]) (fst e)" .
    then show ?thesis by (rule append_prefixD)
  qed
qed

lemma walk_dirs_valid:
  "valid_tree d \<Longrightarrow> \<forall>n\<in>set ps. valid_name n \<Longrightarrow> e \<in> set (walk_dirs ps d) \<Longrightarrow>
   (\<forall>n\<in>set (fst e). valid_name n) \<and> distinct (snd e)"
proof (induction ps d arbitrary: e rule: walk_dirs.induct)
  case (1 ps files subdirs)
  from "1.prems"(3) consider "e = (ps, files)"
    | p d where "p \<in> set subdirs" "snd p = Some d" "e \<in> set (walk_dirs (ps @ [fst p]) d)"
    by (auto split: option.splits)
  then show ?case
  proof cases
    case 1
    with "1.prems"(1,2) show ?thesis by simp
  next
    case 2
    from 2(1,2) "1.prems"(1) have v: "valid_tree d" "valid_name (fst p)" by force+
    with "1.prems"(2) have "\<forall>n\<in>set (ps @ [fst p]). valid_name n" by simp
    from "1.IH" [OF 2(1,2) v(1) this 2(3)] show ?thesis .
  qed
qed

lemma distinct_concat_below:
  assumes "distinct (map fst sub)"
    and "\<And>p. p \<in> set sub \<Longrightarrow> distinct (map fst (g p))"
    and "\<And>p x. p \<in> set sub \<Longrightarrow> x \<in> set (g p) \<Longrightarrow> prefix (ps @ [fst p]) (fst x)"
  shows "distinct (map fst (concat (map g sub)))"
  using assms
proof (induction sub)
  case Nil
  show ?case by simp
next
  case (Cons p sub)
  have 1: "distinct (map fst (g p))" using Cons.prems(2) by simp
  have 2: "distinct (map fst (concat (map g sub)))"
    using Cons.prems by (intro Cons.IH) auto
  have 3: "fst ` set (g p) \<inter> fst ` set (concat (map g sub)) = {}"
  proof (rule ccontr)
    assume "fst ` set (g p) \<inter> fst ` set (concat (map g sub)) \<noteq> {}"
    then obtain k where k: "k \<in> fst ` set (g p)" "k \<in> fst ` set (concat (map g sub))" by blast
    from k(1) obtain x where x: "x \<in> set (g p)" and xk: "fst x = k" by blast
    from k(2) obtain y where yc: "y \<in> set (concat (map g sub))" and yk: "fst y = k" by blast
    from xk yk have e: "fst x = fst y" by simp
    from yc obtain q where q: "q \<in> set sub" and y: "y \<in> set (g q)" by auto
    from Cons.prems(3) [of p x] x have px: "prefix (ps @ [fst p]) (fst x)" by simp
    from Cons.prems(3) [of q y] q y have py: "prefix (ps @ [fst q]) (fst x)" by (simp add: e)
    from px obtain r1 where "fst x = (ps @ [fst p]) @ r1" by (auto simp: prefix_def)
    moreover from py obtain r2 where "fst x = (ps @ [fst q]) @ r2" by (auto simp: prefix_def)
    ultimately have "fst p = fst q" by simp
    with Cons.prems(1) q show False by force
  qed
  from 1 2 3 show ?case by simp
qed

lemma walk_dirs_distinct: "valid_tree d \<Longrightarrow> distinct (map fst (walk_dirs ps d))"
proof (induction ps d rule: walk_dirs.induct)
  case (1 ps files subdirs)
  let ?g = "\<lambda>p. case snd p of None \<Rightarrow> [] | Some d \<Rightarrow> walk_dirs (ps @ [fst p]) d"
  have g1: "\<And>p. p \<in> set subdirs \<Longrightarrow> distinct (map fst (?g p))"
  proof -
    fix p assume p: "p \<in> set subdirs"
    show "distinct (map fst (?g p))"
    proof (cases "snd p")
      case None
      then show ?thesis by simp
    next
      case (Some d)
      with p "1.prems" have "valid_tree d" by force
      from "1.IH" [OF p Some this] Some show ?thesis by simp
    qed
  qed
  have g2: "\<And>p x. p \<in> set subdirs \<Longrightarrow> x \<in> set (?g p) \<Longrightarrow> prefix (ps @ [fst p]) (fst x)"
    by (auto split: option.splits dest: walk_dirs_prefix)
  from "1.prems" have "distinct (map fst subdirs)" by simp
  then have d: "distinct (map fst (concat (map ?g subdirs)))"
    using g1 g2 by (rule distinct_concat_below)
  have "ps \<notin> fst ` set (concat (map ?g subdirs))"
  proof
    assume "ps \<in> fst ` set (concat (map ?g subdirs))"
    then obtain p x where "p \<in> set subdirs" "x \<in> set (?g p)" "fst x = ps" by auto
    with g2 [of p x] have "prefix (ps @ [fst p]) ps" by simp
    then show False by (auto dest: prefix_length_le)
  qed
  with d show ?case by simp
qed


lemma count_list_distinct: "distinct xs \<Longrightarrow> x \<in> set xs \<Longrightarrow> count_list xs x = 1"
  by (induction xs) auto

lemma walk_keys:
  assumes "valid_tree d"
  shows "\<forall>e\<in>set (walk_dirs [] d). relpath (dir_path (fst e)) base_dir = rel_key (fst e)"
    and "inj_on (\<lambda>e. relpath (dir_path (fst e)) base_dir) (set (walk_dirs [] d))"
    and "distinct (map (\<lambda>e. relpath (dir_path (fst e)) base_dir) (walk_dirs [] d))"
proof -
  have v: "\<And>e. e \<in> set (walk_dirs [] d) \<Longrightarrow> \<forall>n\<in>set (fst e). valid_name n"
    using walk_dirs_valid [OF assms, of "[]"] by simp
  have k: "\<And>e. e \<in> set (walk_dirs [] d) \<Longrightarrow>
      relpath (dir_path (fst e)) base_dir = rel_key (fst e)"
  proof -
    fix e assume "e \<in> set (walk_dirs [] d)"
    from v [OF this] have "\<forall>n\<in>set (fst e). n \<noteq> [] \<and> slash \<notin> set n"
      by (simp add: valid_name_def)
    then show "relpath (dir_path (fst e)) base_dir = rel_key (fst e)" by (rule relpath_dir_path)
  qed
  then show 1: "\<forall>e\<in>set (walk_dirs [] d). relpath (dir_path (fst e)) base_dir = rel_key (fst e)"
    by blast
  have d: "distinct (map fst (walk_dirs [] d))" using assms by (rule walk_dirs_distinct)
  show 2: "inj_on (\<lambda>e. relpath (dir_path (fst e)) base_dir) (set (walk_dirs [] d))"
  proof (rule inj_onI)
    fix x y assume x: "x \<in> set (walk_dirs [] d)" and y: "y \<in> set (walk_dirs [] d)"
      and e: "relpath (dir_path (fst x)) base_dir = relpath (dir_path (fst y)) base_dir"
    from e k [OF x] k [OF y] have "rel_key (fst x) = rel_key (fst y)" by simp
    with v [OF x] v [OF y] have "fst x = fst y" by (rule rel_key_inj)
    with d x y show "x = y" by (meson distinct_map inj_onD)
  qed
  from d have "distinct (walk_dirs [] d)" by (simp add: distinct_map)
  with 2 show "distinct (map (\<lambda>e. relpath (dir_path (fst e)) base_dir) (walk_dirs [] d))"
    by (simp add: distinct_map)
qed

lemma collect_examples_closed:
  assumes "valid_tree d"
  shows "collect_examples (Some d) =
           map (\<lambda>e. (relpath (dir_path (fst e)) base_dir, filter (suffix java_suffix) (snd e)))
             (filter (\<lambda>e. filter (suffix java_suffix) (snd e) \<noteq> []) (walk_dirs [] d))"
proof -
  let ?ws = "map (\<lambda>(qs, fs). (dir_path qs, fs)) (walk_dirs [] d)"
  have w: "map (\<lambda>(r, ds, fs). (r, fs)) (os_walk base_dir d) = ?ws"
    using os_walk_dirs [of base_dir "[]" d] by (simp add: dir_path_def)
  have eq: "map (\<lambda>w. relpath (fst w) base_dir) ?ws =
        map (\<lambda>e. relpath (dir_path (fst e)) base_dir) (walk_dirs [] d)"
    by (simp add: comp_def case_prod_beta)
  have d: "distinct (map (\<lambda>w. relpath (fst w) base_dir) ?ws)"
    unfolding eq using assms by (rule walk_keys(3))
  have "foldl collect_dir [] (os_walk base_dir d) =
        [] @ map (\<lambda>w. (relpath (fst w) base_dir, filter (suffix java_suffix) (snd w)))
                 (filter (\<lambda>w. filter (suffix java_suffix) (snd w) \<noteq> []) ?ws)"
    using w d by (rule foldl_collect_dir) simp
  then show ?thesis
    by (simp add: collect_examples_def walk_base_def filter_map comp_def case_prod_beta)
qed

section \<open>Facts about running twice\<close>






























section \<open>Claims\<close>

text \<open>
  C9. When the scan root does not exist, the collector returns the empty mapping; the
  section rendered from it is the heading line alone, and the pipeline goes on to the
  splice, which returns a document: nothing fails at the scan.
\<close>

theorem missing_root_is_empty:
  "collect_examples None = [] \<and>
   generate_section U (collect_examples None) = start_heading @ [newline] \<and>
   main U None (Some content) = replace_section U content (start_heading @ [newline]) \<and>
   (\<exists>updated. main U None (Some content) = Inr updated)"
proof -
  have c: "collect_examples None = []"
    by (simp add: collect_examples_def walk_base_def)
  have "backslash \<notin> set (start_heading @ [newline])"
    using start_heading_no_backslash by (simp add: newline_def backslash_def)
  then have "\<exists>updated. replace_section U content (start_heading @ [newline]) = Inr updated"
    by (simp add: replace_section_plain)
  with c show ?thesis by (simp add: main_def generate_section_empty)
qed

text \<open>
  C1, as amended. For a block without a backslash, the first region (from the first start
  heading to the end of the first end heading after it) is replaced by the block, a
  newline and the end heading; the text after it is not left as it is but is the result
  of the same replacement applied to it, so every later region is replaced too.
\<close>

theorem replace_section_every_region:
  assumes "backslash \<notin> set new_section"
    and "content = pre @ start_heading @ mid @ end_heading @ post"
    and "\<forall>i<length pre. \<not> prefix start_heading (drop i content)"
    and "\<forall>i<length mid. \<not> prefix end_heading (drop i (mid @ end_heading @ post))"
  shows "\<exists>rest. replace_section U post new_section = Inr rest \<and>
           replace_section U content new_section =
             Inr (pre @ new_section @ [newline] @ end_heading @ rest)"
proof -
  let ?t = "map Lit (new_section @ [newline] @ end_heading)"
  from assms(2,3,4)
  have "re_search content = Some (pre, start_heading @ mid @ end_heading, post)"
    using re_search_intro by blast
  then have "re_sub_loop ?t content =
      pre @ expand_template ?t (start_heading @ mid @ end_heading) @ re_sub_loop ?t post"
    by (rule re_sub_loop_Some)
  then have "re_sub_loop ?t content =
      pre @ new_section @ [newline] @ end_heading @ re_sub_loop ?t post"
    by (simp only: expand_template_plain append_assoc)
  with assms(1) show ?thesis by (simp add: replace_section_plain)
qed

theorem replace_section_every_region_witness:
  "replace_section plain_db (ascii ''A'' @ start_heading @ ascii ''old'' @ end_heading @ ascii ''B'')
     (ascii ''X'') =
   Inr (ascii ''A'' @ ascii ''X'' @ [newline] @ end_heading @ ascii ''B'')"
proof -
  let ?c = "ascii ''A'' @ start_heading @ ascii ''old'' @ end_heading @ ascii ''B''"
  have nb: "backslash \<notin> set (ascii ''X'')" by (simp add: ascii_def backslash_def)
  have 1: "\<forall>i<length (ascii ''A''). \<not> prefix start_heading (drop i ?c)"
    using no_occurrence_before [OF start_heading_nonempty, of "ascii ''A''"]
    by (simp add: hd_start_heading ascii_def)
  have 2: "\<forall>i<length (ascii ''old'').
      \<not> prefix end_heading (drop i (ascii ''old'' @ end_heading @ ascii ''B''))"
    using no_occurrence_before [OF end_heading_nonempty, of "ascii ''old''"]
    by (simp add: hd_end_heading ascii_def)
  have 3: "replace_section plain_db (ascii ''B'') (ascii ''X'') = Inr (ascii ''B'')"
    by (rule replace_section_no_hash) (simp_all add: ascii_def backslash_def)
  from replace_section_every_region [OF nb refl 1 2, of plain_db] 3
  show ?thesis by auto
qed

text \<open>
  C1 as stated fails: in a document with two regions the second region is replaced as
  well, where the claim leaves it untouched.
\<close>

theorem later_region_replaced:
  "replace_section plain_db two_regions (ascii ''X'') =
     Inr (ascii ''X'' @ [newline] @ end_heading @ ascii ''b'' @ ascii ''X'' @ [newline] @ end_heading) \<and>
   ascii ''X'' @ [newline] @ end_heading @ ascii ''b'' @ ascii ''X'' @ [newline] @ end_heading \<noteq>
   ascii ''X'' @ [newline] @ end_heading @ ascii ''b'' @ start_heading @ ascii ''c'' @ end_heading"
proof -
  let ?t = "map Lit (ascii ''X'' @ [newline] @ end_heading)"
  have e: "\<And>m. expand_template ?t m = ascii ''X'' @ [newline] @ end_heading"
    by (rule expand_template_plain)
  have 1: "re_sub_loop ?t ([] @ start_heading @ ascii ''a'' @ end_heading @ (ascii ''b'' @ start_heading @ ascii ''c'' @ end_heading)) =
      [] @ expand_template ?t (start_heading @ ascii ''a'' @ end_heading) @
      re_sub_loop ?t (ascii ''b'' @ start_heading @ ascii ''c'' @ end_heading)"
    by (rule re_sub_loop_first) (simp_all add: ascii_def)
  have 2: "re_sub_loop ?t (ascii ''b'' @ start_heading @ ascii ''c'' @ end_heading @ []) =
      ascii ''b'' @ expand_template ?t (start_heading @ ascii ''c'' @ end_heading) @ re_sub_loop ?t []"
    by (rule re_sub_loop_first) (simp_all add: ascii_def)
  have 3: "re_sub_loop ?t [] = []" by (simp add: re_sub_loop_None)
  have r: "re_sub_loop ?t two_regions =
      ascii ''X'' @ [newline] @ end_heading @ ascii ''b'' @ ascii ''X'' @ [newline] @ end_heading"
    using 1 2 3 unfolding e two_regions_def by simp
  have rp: "replace_section plain_db two_regions (ascii ''X'') = Inr (re_sub_loop ?t two_regions)"
    by (rule replace_section_plain) (simp add: ascii_def backslash_def)
  have a: "replace_section plain_db two_regions (ascii ''X'') =
     Inr (ascii ''X'' @ [newline] @ end_heading @ ascii ''b'' @ ascii ''X'' @ [newline] @ end_heading)"
    by (simp only: rp r)
  have b: "ascii ''X'' @ [newline] @ end_heading @ ascii ''b'' @ ascii ''X'' @ [newline] @ end_heading \<noteq>
   ascii ''X'' @ [newline] @ end_heading @ ascii ''b'' @ start_heading @ ascii ''c'' @ end_heading"
    by (simp add: ascii_def start_heading_def)
  from a b show ?thesis by blast
qed




text \<open>
  C4, as amended. When \<^verbatim>\<open>replace_section\<close> returns, the text before the first start
  heading is kept and the first region is replaced by the expansion of the block's
  template. The text after the end heading of the first region is replaced by the result
  of the same replacement on it; it is kept as it is if no further pair of headings
  follows. The text after the last region that is replaced holds no pair of headings and
  is kept at the end of the result.
\<close>

theorem replace_section_frame:
  assumes "content = pre @ start_heading @ mid @ end_heading @ post"
    and "\<forall>i<length pre. \<not> prefix start_heading (drop i content)"
    and "\<forall>i<length mid. \<not> prefix end_heading (drop i (mid @ end_heading @ post))"
    and "replace_section U content new_section = Inr updated"
  shows "\<exists>tmpl tail.
           compile_template U (new_section @ [newline] @ end_heading) = Inr tmpl \<and>
           updated = pre @ expand_template tmpl (start_heading @ mid @ end_heading) @ tail \<and>
           replace_section U post new_section = Inr tail \<and>
           ((\<not> (\<exists>a b c. post = a @ start_heading @ b @ end_heading @ c)) \<longrightarrow> tail = post) \<and>
           suffix (after_last_match content) post \<and>
           suffix (after_last_match content) tail \<and>
           \<not> (\<exists>a b c. after_last_match content = a @ start_heading @ b @ end_heading @ c)"
proof -
  from assms(4) obtain tmpl where
    c: "compile_template U (new_section @ [newline] @ end_heading) = Inr tmpl"
    and u: "updated = re_sub_loop tmpl content"
    by (auto simp: replace_section_def re_sub_def split: sum.splits)
  from assms(1,2,3)
  have r: "re_search content = Some (pre, start_heading @ mid @ end_heading, post)"
    using re_search_intro by blast
  then have 1: "re_sub_loop tmpl content =
      pre @ expand_template tmpl (start_heading @ mid @ end_heading) @ re_sub_loop tmpl post"
    by (rule re_sub_loop_Some)
  have 2: "replace_section U post new_section = Inr (re_sub_loop tmpl post)"
    unfolding replace_section_def re_sub_def c by simp
  have 3: "(\<not> (\<exists>a b c. post = a @ start_heading @ b @ end_heading @ c)) \<longrightarrow>
      re_sub_loop tmpl post = post"
  proof
    assume "\<not> (\<exists>a b c. post = a @ start_heading @ b @ end_heading @ c)"
    then have "re_search post = None" using re_search_None_iff by blast
    then show "re_sub_loop tmpl post = post" by (rule re_sub_loop_None)
  qed
  have a: "after_last_match content = after_last_match post"
    using r by (rule after_last_match_Some)
  have 4: "suffix (after_last_match content) post"
    unfolding a using after_last_match_kept by blast
  have 5: "suffix (after_last_match content) (re_sub_loop tmpl post)"
    unfolding a using after_last_match_kept by blast
  have "re_search (after_last_match content) = None"
    using after_last_match_kept by blast
  then have 6: "\<not> (\<exists>a b c. after_last_match content = a @ start_heading @ b @ end_heading @ c)"
    using re_search_None_iff by blast
  from c u 1 2 3 4 5 6 show ?thesis by blast
qed

theorem replace_section_frame_witness:
  "\<exists>tmpl. compile_template plain_db (ascii ''X'' @ [newline] @ end_heading) = Inr tmpl \<and>
     replace_section plain_db
       (ascii ''A'' @ start_heading @ ascii ''old'' @ end_heading @ ascii ''B'') (ascii ''X'') =
     Inr (ascii ''A'' @ expand_template tmpl (start_heading @ ascii ''old'' @ end_heading) @
          ascii ''B'')"
proof -
  let ?c = "ascii ''A'' @ start_heading @ ascii ''old'' @ end_heading @ ascii ''B''"
  have nb: "backslash \<notin> set (ascii ''X'')" by (simp add: ascii_def backslash_def)
  have 1: "\<forall>i<length (ascii ''A''). \<not> prefix start_heading (drop i ?c)"
    using no_occurrence_before [OF start_heading_nonempty, of "ascii ''A''"]
    by (simp add: hd_start_heading ascii_def)
  have 2: "\<forall>i<length (ascii ''old'').
      \<not> prefix end_heading (drop i (ascii ''old'' @ end_heading @ ascii ''B''))"
    using no_occurrence_before [OF end_heading_nonempty, of "ascii ''old''"]
    by (simp add: hd_end_heading ascii_def)
  have r: "replace_section plain_db ?c (ascii ''X'') =
           Inr (re_sub_loop (map Lit (ascii ''X'' @ [newline] @ end_heading)) ?c)"
    using nb by (rule replace_section_plain)
  have "re_search (ascii ''B'') = None" by (rule re_search_no_hash) (simp add: ascii_def)
  then have 3: "\<not> (\<exists>a b c. ascii ''B'' = a @ start_heading @ b @ end_heading @ c)"
    using re_search_None_iff by blast
  from replace_section_frame [OF refl 1 2 r] 3 r show ?thesis by auto
qed

text \<open>
  C4 as stated fails where the matched end heading is that of the first region, the one
  region that the splice of the specification replaces: with two regions in the
  document, the text after the end heading of the first is not a suffix of the result,
  because the second region in it is replaced; the change is not confined to one region.
\<close>

theorem text_after_first_region_changed:
  "replace_section plain_db three_texts (ascii ''N'') =
     Inr (ascii ''A'' @ ascii ''N'' @ [newline] @ end_heading @
          ascii ''B'' @ ascii ''N'' @ [newline] @ end_heading @ ascii ''C'') \<and>
   \<not> suffix (ascii ''B'' @ start_heading @ ascii ''y'' @ end_heading @ ascii ''C'')
       (ascii ''A'' @ ascii ''N'' @ [newline] @ end_heading @
        ascii ''B'' @ ascii ''N'' @ [newline] @ end_heading @ ascii ''C'')"
proof -
  let ?t = "map Lit (ascii ''N'' @ [newline] @ end_heading)"
  have e: "\<And>m. expand_template ?t m = ascii ''N'' @ [newline] @ end_heading"
    by (rule expand_template_plain)
  have 1: "re_sub_loop ?t (ascii ''A'' @ start_heading @ ascii ''x'' @ end_heading @
        (ascii ''B'' @ start_heading @ ascii ''y'' @ end_heading @ ascii ''C'')) =
      ascii ''A'' @ expand_template ?t (start_heading @ ascii ''x'' @ end_heading) @
      re_sub_loop ?t (ascii ''B'' @ start_heading @ ascii ''y'' @ end_heading @ ascii ''C'')"
    by (rule re_sub_loop_first) (simp_all add: ascii_def)
  have 2: "re_sub_loop ?t (ascii ''B'' @ start_heading @ ascii ''y'' @ end_heading @ ascii ''C'') =
      ascii ''B'' @ expand_template ?t (start_heading @ ascii ''y'' @ end_heading) @
      re_sub_loop ?t (ascii ''C'')"
    by (rule re_sub_loop_first) (simp_all add: ascii_def)
  have 3: "re_sub_loop ?t (ascii ''C'') = ascii ''C''"
    by (rule re_sub_loop_None, rule re_search_no_hash) (simp add: ascii_def)
  have r: "re_sub_loop ?t three_texts =
      ascii ''A'' @ ascii ''N'' @ [newline] @ end_heading @
      ascii ''B'' @ ascii ''N'' @ [newline] @ end_heading @ ascii ''C''"
    using 1 2 3 unfolding e three_texts_def by simp
  have rp: "replace_section plain_db three_texts (ascii ''N'') = Inr (re_sub_loop ?t three_texts)"
    by (rule replace_section_plain) (simp add: ascii_def backslash_def)
  have a: "replace_section plain_db three_texts (ascii ''N'') =
     Inr (ascii ''A'' @ ascii ''N'' @ [newline] @ end_heading @
          ascii ''B'' @ ascii ''N'' @ [newline] @ end_heading @ ascii ''C'')"
    by (simp only: rp r)
  have b: "\<not> suffix (ascii ''B'' @ start_heading @ ascii ''y'' @ end_heading @ ascii ''C'')
       (ascii ''A'' @ ascii ''N'' @ [newline] @ end_heading @
        ascii ''B'' @ ascii ''N'' @ [newline] @ end_heading @ ascii ''C'')"
    by (simp add: suffix_to_prefix ascii_def newline_def)
  from a b show ?thesis by blast
qed










text \<open>
  C10. The block is a replacement template. A block without a backslash is inserted as
  it is: the first region is replaced by the block, a newline and the end heading. A
  block with a backslash is not: the block rendered for the file \<^verbatim>\<open>a\q.java\<close> raises the
  error of a malformed template, and in the block rendered for the file \<^verbatim>\<open>a\n.java\<close>
  the two characters \<^verbatim>\<open>\n\<close> of the display text are replaced by a newline, so the
  result differs from the block followed by a newline and the end heading.
\<close>

theorem block_is_template:
  "(backslash \<notin> set blk \<longrightarrow>
    content = pre @ start_heading @ mid @ end_heading @ post \<longrightarrow>
    (\<forall>i<length pre. \<not> prefix start_heading (drop i content)) \<longrightarrow>
    (\<forall>i<length mid. \<not> prefix end_heading (drop i (mid @ end_heading @ post))) \<longrightarrow>
    (\<exists>rest. replace_section U post blk = Inr rest \<and>
       replace_section U content blk = Inr (pre @ blk @ [newline] @ end_heading @ rest))) \<and>
   replace_section U (start_heading @ ascii ''old'' @ end_heading)
     (generate_section U [(ascii ''t'', [ascii ''a'' @ [backslash] @ ascii ''q.java''])]) =
   Inl TemplateError \<and>
   replace_section U (start_heading @ ascii ''old'' @ end_heading)
     (generate_section U [(ascii ''t'', [ascii ''a'' @ [backslash] @ ascii ''n.java''])]) =
   Inr (start_heading @ [newline, newline] @ ascii ''- **T**'' @ [newline] @
        ascii ''  - [a'' @ [newline] @ ascii ''](src/main/java/t/a/n.java)'' @
        [newline, newline] @ end_heading) \<and>
   start_heading @ [newline, newline] @ ascii ''- **T**'' @ [newline] @
        ascii ''  - [a'' @ [newline] @ ascii ''](src/main/java/t/a/n.java)'' @
        [newline, newline] @ end_heading \<noteq>
   generate_section U [(ascii ''t'', [ascii ''a'' @ [backslash] @ ascii ''n.java''])] @
     [newline] @ end_heading"
proof -
  have 1: "backslash \<notin> set blk \<longrightarrow>
    content = pre @ start_heading @ mid @ end_heading @ post \<longrightarrow>
    (\<forall>i<length pre. \<not> prefix start_heading (drop i content)) \<longrightarrow>
    (\<forall>i<length mid. \<not> prefix end_heading (drop i (mid @ end_heading @ post))) \<longrightarrow>
    (\<exists>rest. replace_section U post blk = Inr rest \<and>
       replace_section U content blk = Inr (pre @ blk @ [newline] @ end_heading @ rest))"
  proof (intro impI)
    let ?t = "map Lit (blk @ [newline] @ end_heading)"
    assume nb: "backslash \<notin> set blk"
      and c: "content = pre @ start_heading @ mid @ end_heading @ post"
      and p: "\<forall>i<length pre. \<not> prefix start_heading (drop i content)"
      and m: "\<forall>i<length mid. \<not> prefix end_heading (drop i (mid @ end_heading @ post))"
    from c p m have "re_search content = Some (pre, start_heading @ mid @ end_heading, post)"
      using re_search_intro by blast
    then have "re_sub_loop ?t content =
        pre @ expand_template ?t (start_heading @ mid @ end_heading) @ re_sub_loop ?t post"
      by (rule re_sub_loop_Some)
    then have "re_sub_loop ?t content = pre @ blk @ [newline] @ end_heading @ re_sub_loop ?t post"
      by (simp only: expand_template_plain append_assoc)
    with nb show "\<exists>rest. replace_section U post blk = Inr rest \<and>
       replace_section U content blk = Inr (pre @ blk @ [newline] @ end_heading @ rest)"
      by (simp add: replace_section_plain)
  qed
  have 2: "replace_section U (start_heading @ ascii ''old'' @ end_heading)
     (generate_section U [(ascii ''t'', [ascii ''a'' @ [backslash] @ ascii ''q.java''])]) =
     Inl TemplateError"
    by (rule bad_escape_block)
  have "replace_section U ([] @ start_heading @ ascii ''old'' @ end_heading @ [])
     (generate_section U [(ascii ''t'', [ascii ''a'' @ [backslash] @ ascii ''n.java''])]) =
   Inr ([] @ start_heading @ [newline, newline] @ ascii ''- **T**'' @ [newline] @
        ascii ''  - [a'' @ [newline] @ ascii ''](src/main/java/t/a/n.java)'' @
        [newline, newline] @ end_heading @ [])"
    by (rule newline_escape_block) (simp_all add: ascii_def)
  then have 3: "replace_section U (start_heading @ ascii ''old'' @ end_heading)
     (generate_section U [(ascii ''t'', [ascii ''a'' @ [backslash] @ ascii ''n.java''])]) =
   Inr (start_heading @ [newline, newline] @ ascii ''- **T**'' @ [newline] @
        ascii ''  - [a'' @ [newline] @ ascii ''](src/main/java/t/a/n.java)'' @
        [newline, newline] @ end_heading)"
    by simp
  have 4: "start_heading @ [newline, newline] @ ascii ''- **T**'' @ [newline] @
        ascii ''  - [a'' @ [newline] @ ascii ''](src/main/java/t/a/n.java)'' @
        [newline, newline] @ end_heading \<noteq>
   generate_section U [(ascii ''t'', [ascii ''a'' @ [backslash] @ ascii ''n.java''])] @
     [newline] @ end_heading"
    unfolding generate_section_single topic_line_t example_line_n
    by (simp add: ascii_def newline_def backslash_def)
  from 1 2 3 4 show ?thesis by blast
qed

theorem block_is_template_witness:
  "replace_section plain_db
     (ascii ''A'' @ start_heading @ ascii ''old'' @ end_heading @ ascii ''B'')
     (generate_section plain_db []) =
   Inr (ascii ''A'' @ start_heading @ [newline] @ [newline] @ end_heading @ ascii ''B'')"
proof -
  let ?c = "ascii ''A'' @ start_heading @ ascii ''old'' @ end_heading @ ascii ''B''"
  let ?blk = "generate_section plain_db []"
  have g: "?blk = start_heading @ [newline]" by (rule generate_section_empty)
  have nb: "backslash \<notin> set ?blk"
    unfolding g using start_heading_no_backslash by (simp add: newline_def backslash_def)
  have 1: "\<forall>i<length (ascii ''A''). \<not> prefix start_heading (drop i ?c)"
    using no_occurrence_before [OF start_heading_nonempty, of "ascii ''A''"]
    by (simp add: hd_start_heading ascii_def)
  have 2: "\<forall>i<length (ascii ''old'').
      \<not> prefix end_heading (drop i (ascii ''old'' @ end_heading @ ascii ''B''))"
    using no_occurrence_before [OF end_heading_nonempty, of "ascii ''old''"]
    by (simp add: hd_end_heading ascii_def)
  have 3: "replace_section plain_db (ascii ''B'') ?blk = Inr (ascii ''B'')"
    using nb by (rule replace_section_no_hash) (simp add: ascii_def)
  from block_is_template [of ?blk ?c "ascii ''A''" "ascii ''old''" "ascii ''B''" plain_db]
    nb 1 2
  have "\<exists>rest. replace_section plain_db (ascii ''B'') ?blk = Inr rest \<and>
       replace_section plain_db ?c ?blk =
         Inr (ascii ''A'' @ ?blk @ [newline] @ end_heading @ rest)"
    by blast
  with 3 have "replace_section plain_db ?c ?blk =
         Inr (ascii ''A'' @ ?blk @ [newline] @ end_heading @ ascii ''B'')" by auto
  then show ?thesis unfolding g by simp
qed

text \<open>
  C6. For a tree of a file system, the mapping of the collector has one entry for each
  directory that the walk enters and that has a file with the suffix, in the order of
  the walk: the key is the relative path of the directory from the scan root (\<^verbatim>\<open>.\<close> for
  the root itself, the names joined by slashes below it) and the list holds the files of
  that directory with the suffix. No key occurs twice and two directories never have the
  same key, so a file with the suffix is in the list of exactly one entry, the one of
  its directory, and it is there once.
\<close>

theorem collect_examples_by_directory:
  assumes "valid_tree d"
  shows "collect_examples (Some d) =
           map (\<lambda>e. (relpath (dir_path (fst e)) base_dir, filter (suffix java_suffix) (snd e)))
             (filter (\<lambda>e. filter (suffix java_suffix) (snd e) \<noteq> []) (walk_dirs [] d)) \<and>
         distinct (map fst (collect_examples (Some d))) \<and>
         (\<forall>e\<in>set (walk_dirs [] d).
            relpath (dir_path (fst e)) base_dir = rel_key (fst e) \<and>
            (\<forall>e'\<in>set (walk_dirs [] d).
               relpath (dir_path (fst e')) base_dir = relpath (dir_path (fst e)) base_dir \<longrightarrow>
               e' = e) \<and>
            (\<forall>f\<in>set (snd e). suffix java_suffix f \<longrightarrow>
               map_of (collect_examples (Some d)) (relpath (dir_path (fst e)) base_dir) =
                 Some (filter (suffix java_suffix) (snd e)) \<and>
               count_list (filter (suffix java_suffix) (snd e)) f = 1))"
proof -
  let ?key = "\<lambda>e. relpath (dir_path (fst e)) base_dir"
  let ?java = "\<lambda>e. filter (suffix java_suffix) (snd e)"
  let ?W = "walk_dirs [] d"
  note c = collect_examples_closed [OF assms]
  have "map fst (collect_examples (Some d)) = map ?key (filter (\<lambda>e. ?java e \<noteq> []) ?W)"
    unfolding c by simp
  then have 2: "distinct (map fst (collect_examples (Some d)))"
    using walk_keys(3) [OF assms] by (simp add: distinct_map_filter)
  have 3: "\<forall>e\<in>set ?W. ?key e = rel_key (fst e) \<and>
            (\<forall>e'\<in>set ?W. ?key e' = ?key e \<longrightarrow> e' = e) \<and>
            (\<forall>f\<in>set (snd e). suffix java_suffix f \<longrightarrow>
               map_of (collect_examples (Some d)) (?key e) = Some (?java e) \<and>
               count_list (?java e) f = 1)"
  proof
    fix e assume e: "e \<in> set ?W"
    have a: "?key e = rel_key (fst e)" using walk_keys(1) [OF assms] e by blast
    have b: "\<forall>e'\<in>set ?W. ?key e' = ?key e \<longrightarrow> e' = e"
      using walk_keys(2) [OF assms] e by (auto dest: inj_onD)
    have f: "\<forall>f\<in>set (snd e). suffix java_suffix f \<longrightarrow>
               map_of (collect_examples (Some d)) (?key e) = Some (?java e) \<and>
               count_list (?java e) f = 1"
    proof (intro ballI impI)
      fix f assume f: "f \<in> set (snd e)" "suffix java_suffix f"
      then have m: "f \<in> set (?java e)" by simp
      then have "?java e \<noteq> []" by (metis empty_iff empty_set)
      with e have "(?key e, ?java e) \<in> set (collect_examples (Some d))"
        unfolding c by force
      with 2 have 1: "map_of (collect_examples (Some d)) (?key e) = Some (?java e)"
        by (rule map_of_is_SomeI)
      from walk_dirs_valid [OF assms _ e] have "distinct (snd e)" by simp
      then have "distinct (?java e)" by simp
      then have "count_list (?java e) f = 1" using m by (rule count_list_distinct)
      with 1 show "map_of (collect_examples (Some d)) (?key e) = Some (?java e) \<and>
               count_list (?java e) f = 1" by blast
    qed
    from a b f show "?key e = rel_key (fst e) \<and>
            (\<forall>e'\<in>set ?W. ?key e' = ?key e \<longrightarrow> e' = e) \<and>
            (\<forall>f\<in>set (snd e). suffix java_suffix f \<longrightarrow>
               map_of (collect_examples (Some d)) (?key e) = Some (?java e) \<and>
               count_list (?java e) f = 1)" by blast
  qed
  from c 2 3 show ?thesis by blast
qed


theorem collect_examples_by_directory_witness:
  "valid_tree sample_tree \<and>
   collect_examples (Some sample_tree) =
     [(ascii ''.'', [ascii ''R.java'']), (ascii ''b'', [ascii ''B.java''])]"
proof -
  have v: "valid_tree sample_tree"
    by (simp add: sample_tree_def valid_name_def ascii_def slash_def)
  have w: "walk_dirs [] sample_tree =
      [([], [ascii ''R.java'', ascii ''x.txt'']), ([ascii ''b''], [ascii ''B.java''])]"
    by (simp add: sample_tree_def)
  note t = collect_examples_by_directory [OF v]
  from t have c: "collect_examples (Some sample_tree) =
      map (\<lambda>e. (relpath (dir_path (fst e)) base_dir, filter (suffix java_suffix) (snd e)))
        (filter (\<lambda>e. filter (suffix java_suffix) (snd e) \<noteq> []) (walk_dirs [] sample_tree))"
    by blast
  from t have "\<forall>e\<in>set (walk_dirs [] sample_tree).
      relpath (dir_path (fst e)) base_dir = rel_key (fst e)" by blast
  then have k: "relpath (dir_path []) base_dir = ascii ''.''"
    "relpath (dir_path [ascii ''b'']) base_dir = ascii ''b''"
    unfolding w by (simp_all add: rel_key_def)
  have j: "suffix java_suffix (ascii ''R.java'')" "\<not> suffix java_suffix (ascii ''x.txt'')"
    "suffix java_suffix (ascii ''B.java'')"
    by (simp_all add: suffix_to_prefix java_suffix_def ascii_def)
  have "collect_examples (Some sample_tree) =
     [(ascii ''.'', [ascii ''R.java'']), (ascii ''b'', [ascii ''B.java''])]"
    unfolding c w by (simp add: j k)
  with v show ?thesis by blast
qed




end
